theory Spec2Isabelle
  imports Main "HOL-Library.Monad_Syntax" "HOL-Library.Sublist" "HOL-Library.Multiset"
begin

section \<open>Memory model of \<open>sjtu::list\<close>\<close>

text \<open>
  The container of \<open>src/list.hpp\<close> is a ring of heap nodes around a sentinel. Nodes and
  container objects live at addresses; address \<open>0\<close> is \<open>nullptr\<close>. The node heap and the
  store of container objects are partial maps, so that a freed or never allocated address
  holds nothing. Every function that reads or writes memory returns an \<open>option\<close>: \<open>None\<close>
  stands for an execution to which C++ gives no meaning (a read or write through a null or
  dangling pointer, a double delete) or which does not return. The two exceptions of
  \<open>exceptions.hpp\<close> that the container throws are values of type \<open>error\<close>.

  The counter \<open>n\<close> is a \<open>size_t\<close>; it counts nodes that exist in memory, so it stays far
  below \<open>2^64\<close> and is modelled as a natural number, as are the array indices of \<open>sort\<close>.
\<close>

type_synonym addr = nat

abbreviation (input) nullptr :: addr where
  "nullptr \<equiv> 0"

datatype error = invalid_iterator | container_is_empty

text \<open>\<open>class node\<close>: \<open>val\<close> is \<open>None\<close> for the sentinel (\<open>T *val = nullptr\<close>).\<close>

record 'a node =
  prev :: addr
  "next" :: addr
  val :: "'a option"

type_synonym 'a heap = "addr \<rightharpoonup> 'a node"

text \<open>The data members \<open>s\<close> and \<open>n\<close> of \<open>class list\<close>.\<close>

record lst =
  list_s :: addr
  list_n :: nat

text \<open>The data members \<open>owner\<close> and \<open>p\<close> of \<open>iterator\<close> and of \<open>const_iterator\<close>.\<close>

record iterator =
  owner :: addr
  ptr :: addr

record 'a state =
  nodes :: "'a heap"
  lists :: "addr \<rightharpoonup> lst"

subsection \<open>Reading and writing node fields\<close>

definition get_next :: "'a heap \<Rightarrow> addr \<Rightarrow> addr option" where
  "get_next h a = map_option next (h a)"

definition get_prev :: "'a heap \<Rightarrow> addr \<Rightarrow> addr option" where
  "get_prev h a = map_option prev (h a)"

text \<open>\<open>*(a->val)\<close>: undefined when \<open>a\<close> is not a live node or its \<open>val\<close> is null.\<close>

definition get_val :: "'a heap \<Rightarrow> addr \<Rightarrow> 'a option" where
  "get_val h a = Option.bind (h a) val"

definition set_next :: "'a heap \<Rightarrow> addr \<Rightarrow> addr \<Rightarrow> 'a heap option" where
  "set_next h a b = (case h a of None \<Rightarrow> None | Some nd \<Rightarrow> Some (h(a \<mapsto> nd\<lparr>next := b\<rparr>)))"

definition set_prev :: "'a heap \<Rightarrow> addr \<Rightarrow> addr \<Rightarrow> 'a heap option" where
  "set_prev h a b = (case h a of None \<Rightarrow> None | Some nd \<Rightarrow> Some (h(a \<mapsto> nd\<lparr>prev := b\<rparr>)))"

text \<open>
  \<open>new node(...)\<close>: the allocator's choice of address is a parameter of every operation
  that allocates. It returns a non-null address that holds no live node.
\<close>

definition new_node :: "'a heap \<Rightarrow> addr \<Rightarrow> 'a node \<Rightarrow> 'a heap option" where
  "new_node h a nd = (if a = nullptr \<or> h a \<noteq> None then None else Some (h(a \<mapsto> nd)))"

text \<open>\<open>delete a\<close> for a node pointer: a no-opv on \<open>nullptr\<close>, undefined on a dead node.\<close>

definition delete_node :: "'a heap \<Rightarrow> addr \<Rightarrow> 'a heap option" where
  "delete_node h a =
     (if a = nullptr then Some h
      else case h a of None \<Rightarrow> None | Some nd \<Rightarrow> Some (h(a := None)))"

subsection \<open>The private link primitives\<close>

text \<open>\<open>node *insert(node *pos, node *cur)\<close>: link \<open>cur\<close> before \<open>pos\<close>.\<close>

definition insert_node :: "'a heap \<Rightarrow> addr \<Rightarrow> addr \<Rightarrow> 'a heap option" where
  "insert_node h pos cur = do {
     h1 \<leftarrow> set_next h cur pos;
     pp \<leftarrow> get_prev h1 pos;
     h2 \<leftarrow> set_prev h1 cur pp;
     pq \<leftarrow> get_prev h2 pos;
     h3 \<leftarrow> set_next h2 pq cur;
     set_prev h3 pos cur
   }"

text \<open>\<open>node *erase(node *pos)\<close>: unlink \<open>pos\<close>, do not delete it.\<close>

definition erase_node :: "'a heap \<Rightarrow> addr \<Rightarrow> 'a heap option" where
  "erase_node h pos = do {
     pp \<leftarrow> get_prev h pos;
     pn \<leftarrow> get_next h pos;
     h1 \<leftarrow> set_next h pp pn;
     qn \<leftarrow> get_next h1 pos;
     qp \<leftarrow> get_prev h1 pos;
     set_prev h1 qn qp
   }"

subsection \<open>Iterators\<close>

text \<open>
  The operators read the container through \<open>owner\<close>; they change the iterator only.
  The postfix forms return the old iterator and the advanced one, the prefix forms the
  advanced one.
\<close>

definition iter_post_inc :: "'a state \<Rightarrow> iterator \<Rightarrow> (error + iterator \<times> iterator) option" where
  "iter_post_inc st it =
     (if owner it = nullptr \<or> ptr it = nullptr then Some (Inl invalid_iterator)
      else do {
        L \<leftarrow> lists st (owner it);
        if ptr it = list_s L then Some (Inl invalid_iterator)
        else do {
          nx \<leftarrow> get_next (nodes st) (ptr it);
          Some (Inr (it, it\<lparr>ptr := nx\<rparr>))
        }
      })"

definition iter_pre_inc :: "'a state \<Rightarrow> iterator \<Rightarrow> (error + iterator) option" where
  "iter_pre_inc st it =
     (if owner it = nullptr \<or> ptr it = nullptr then Some (Inl invalid_iterator)
      else do {
        L \<leftarrow> lists st (owner it);
        if ptr it = list_s L then Some (Inl invalid_iterator)
        else do {
          nx \<leftarrow> get_next (nodes st) (ptr it);
          Some (Inr (it\<lparr>ptr := nx\<rparr>))
        }
      })"

definition iter_post_dec :: "'a state \<Rightarrow> iterator \<Rightarrow> (error + iterator \<times> iterator) option" where
  "iter_post_dec st it =
     (if owner it = nullptr \<or> ptr it = nullptr then Some (Inl invalid_iterator)
      else do {
        L \<leftarrow> lists st (owner it);
        if ptr it = list_s L \<and> list_n L = 0 then Some (Inl invalid_iterator)
        else do {
          pv \<leftarrow> (if ptr it = list_s L then get_prev (nodes st) (list_s L)
                 else get_prev (nodes st) (ptr it));
          Some (Inr (it, it\<lparr>ptr := pv\<rparr>))
        }
      })"

definition iter_pre_dec :: "'a state \<Rightarrow> iterator \<Rightarrow> (error + iterator) option" where
  "iter_pre_dec st it =
     (if owner it = nullptr \<or> ptr it = nullptr then Some (Inl invalid_iterator)
      else do {
        L \<leftarrow> lists st (owner it);
        if ptr it = list_s L then
          (if list_n L = 0 then Some (Inl invalid_iterator)
           else do {
             pv \<leftarrow> get_prev (nodes st) (list_s L);
             Some (Inr (it\<lparr>ptr := pv\<rparr>))
           })
        else do {
          pv \<leftarrow> get_prev (nodes st) (ptr it);
          Some (Inr (it\<lparr>ptr := pv\<rparr>))
        }
      })"

text \<open>\<open>operator*\<close> and \<open>operator->\<close> have the same guard and yield the stored value.\<close>

definition iter_deref :: "'a state \<Rightarrow> iterator \<Rightarrow> (error + 'a) option" where
  "iter_deref st it =
     (if owner it = nullptr \<or> ptr it = nullptr then Some (Inl invalid_iterator)
      else do {
        L \<leftarrow> lists st (owner it);
        if ptr it = list_s L then Some (Inl invalid_iterator)
        else do {
          nd \<leftarrow> nodes st (ptr it);
          case val nd of
            None \<Rightarrow> Some (Inl invalid_iterator)
          | Some v \<Rightarrow> Some (Inr v)
        }
      })"

definition iter_arrow :: "'a state \<Rightarrow> iterator \<Rightarrow> (error + 'a) option" where
  "iter_arrow st it =
     (if owner it = nullptr \<or> ptr it = nullptr then Some (Inl invalid_iterator)
      else do {
        L \<leftarrow> lists st (owner it);
        if ptr it = list_s L then Some (Inl invalid_iterator)
        else do {
          nd \<leftarrow> nodes st (ptr it);
          case val nd of
            None \<Rightarrow> Some (Inl invalid_iterator)
          | Some v \<Rightarrow> Some (Inr v)
        }
      })"

text \<open>\<open>operator==\<close>, the same for every pairing of \<open>iterator\<close> and \<open>const_iterator\<close>.\<close>

definition iter_eq :: "iterator \<Rightarrow> iterator \<Rightarrow> bool" where
  "iter_eq a b = (owner a = owner b \<and> ptr a = ptr b)"

text \<open>
  The member functions of \<open>const_iterator\<close> repeat those of \<open>iterator\<close> on the same two
  data members.
\<close>

definition citer_post_inc :: "'a state \<Rightarrow> iterator \<Rightarrow> (error + iterator \<times> iterator) option" where
  "citer_post_inc st it =
     (if owner it = nullptr \<or> ptr it = nullptr then Some (Inl invalid_iterator)
      else do {
        L \<leftarrow> lists st (owner it);
        if ptr it = list_s L then Some (Inl invalid_iterator)
        else do {
          nx \<leftarrow> get_next (nodes st) (ptr it);
          Some (Inr (it, it\<lparr>ptr := nx\<rparr>))
        }
      })"

definition citer_pre_inc :: "'a state \<Rightarrow> iterator \<Rightarrow> (error + iterator) option" where
  "citer_pre_inc st it =
     (if owner it = nullptr \<or> ptr it = nullptr then Some (Inl invalid_iterator)
      else do {
        L \<leftarrow> lists st (owner it);
        if ptr it = list_s L then Some (Inl invalid_iterator)
        else do {
          nx \<leftarrow> get_next (nodes st) (ptr it);
          Some (Inr (it\<lparr>ptr := nx\<rparr>))
        }
      })"

definition citer_post_dec :: "'a state \<Rightarrow> iterator \<Rightarrow> (error + iterator \<times> iterator) option" where
  "citer_post_dec st it =
     (if owner it = nullptr \<or> ptr it = nullptr then Some (Inl invalid_iterator)
      else do {
        L \<leftarrow> lists st (owner it);
        if ptr it = list_s L \<and> list_n L = 0 then Some (Inl invalid_iterator)
        else do {
          pv \<leftarrow> (if ptr it = list_s L then get_prev (nodes st) (list_s L)
                 else get_prev (nodes st) (ptr it));
          Some (Inr (it, it\<lparr>ptr := pv\<rparr>))
        }
      })"

definition citer_pre_dec :: "'a state \<Rightarrow> iterator \<Rightarrow> (error + iterator) option" where
  "citer_pre_dec st it =
     (if owner it = nullptr \<or> ptr it = nullptr then Some (Inl invalid_iterator)
      else do {
        L \<leftarrow> lists st (owner it);
        if ptr it = list_s L then
          (if list_n L = 0 then Some (Inl invalid_iterator)
           else do {
             pv \<leftarrow> get_prev (nodes st) (list_s L);
             Some (Inr (it\<lparr>ptr := pv\<rparr>))
           })
        else do {
          pv \<leftarrow> get_prev (nodes st) (ptr it);
          Some (Inr (it\<lparr>ptr := pv\<rparr>))
        }
      })"

definition citer_deref :: "'a state \<Rightarrow> iterator \<Rightarrow> (error + 'a) option" where
  "citer_deref st it =
     (if owner it = nullptr \<or> ptr it = nullptr then Some (Inl invalid_iterator)
      else do {
        L \<leftarrow> lists st (owner it);
        if ptr it = list_s L then Some (Inl invalid_iterator)
        else do {
          nd \<leftarrow> nodes st (ptr it);
          case val nd of
            None \<Rightarrow> Some (Inl invalid_iterator)
          | Some v \<Rightarrow> Some (Inr v)
        }
      })"

subsection \<open>Construction, positions, insertion and removal\<close>

text \<open>\<open>list()\<close>: the object is built at \<open>this\<close>, its sentinel at the fresh address \<open>a\<close>.\<close>

definition list_ctor :: "'a state \<Rightarrow> addr \<Rightarrow> addr \<Rightarrow> 'a state option" where
  "list_ctor st this a = do {
     h \<leftarrow> new_node (nodes st) a \<lparr>prev = a, next = a, val = None\<rparr>;
     Some (st\<lparr>nodes := h, lists := (lists st)(this \<mapsto> \<lparr>list_s = a, list_n = 0\<rparr>)\<rparr>)
   }"

definition begin_it :: "'a state \<Rightarrow> addr \<Rightarrow> iterator option" where
  "begin_it st this = do {
     L \<leftarrow> lists st this;
     nx \<leftarrow> get_next (nodes st) (list_s L);
     Some \<lparr>owner = this, ptr = nx\<rparr>
   }"

definition end_it :: "'a state \<Rightarrow> addr \<Rightarrow> iterator option" where
  "end_it st this = do {
     L \<leftarrow> lists st this;
     Some \<lparr>owner = this, ptr = list_s L\<rparr>
   }"

text \<open>
  \<open>iterator insert(iterator pos, const T &value)\<close>; \<open>cur\<close> is the address that
  \<open>new node(value)\<close> returns.
\<close>

definition insert_iter ::
  "'a state \<Rightarrow> addr \<Rightarrow> iterator \<Rightarrow> 'a \<Rightarrow> addr \<Rightarrow> (error + iterator \<times> 'a state) option" where
  "insert_iter st this pos v cur = do {
     L \<leftarrow> lists st this;
     if owner pos \<noteq> this \<or> ptr pos = nullptr then Some (Inl invalid_iterator)
     else do {
       h0 \<leftarrow> new_node (nodes st) cur \<lparr>prev = nullptr, next = nullptr, val = Some v\<rparr>;
       h \<leftarrow> insert_node h0 (ptr pos) cur;
       Some (Inr (\<lparr>owner = this, ptr = cur\<rparr>,
                  st\<lparr>nodes := h, lists := (lists st)(this \<mapsto> L\<lparr>list_n := list_n L + 1\<rparr>)\<rparr>))
     }
   }"

text \<open>\<open>iterator erase(iterator pos)\<close>.\<close>

definition erase_iter ::
  "'a state \<Rightarrow> addr \<Rightarrow> iterator \<Rightarrow> (error + iterator \<times> 'a state) option" where
  "erase_iter st this pos = do {
     L \<leftarrow> lists st this;
     if list_n L = 0 then Some (Inl container_is_empty)
     else if owner pos \<noteq> this \<or> ptr pos = nullptr \<or> ptr pos = list_s L
     then Some (Inl invalid_iterator)
     else do {
       nextp \<leftarrow> get_next (nodes st) (ptr pos);
       h1 \<leftarrow> erase_node (nodes st) (ptr pos);
       h2 \<leftarrow> delete_node h1 (ptr pos);
       Some (Inr (\<lparr>owner = this, ptr = nextp\<rparr>,
                  st\<lparr>nodes := h2, lists := (lists st)(this \<mapsto> L\<lparr>list_n := list_n L - 1\<rparr>)\<rparr>))
     }
   }"

definition push_back :: "'a state \<Rightarrow> addr \<Rightarrow> 'a \<Rightarrow> addr \<Rightarrow> (error + 'a state) option" where
  "push_back st this v cur = do {
     L \<leftarrow> lists st this;
     r \<leftarrow> insert_iter st this \<lparr>owner = this, ptr = list_s L\<rparr> v cur;
     Some (map_sum id snd r)
   }"

definition push_front :: "'a state \<Rightarrow> addr \<Rightarrow> 'a \<Rightarrow> addr \<Rightarrow> (error + 'a state) option" where
  "push_front st this v cur = do {
     L \<leftarrow> lists st this;
     nx \<leftarrow> get_next (nodes st) (list_s L);
     r \<leftarrow> insert_iter st this \<lparr>owner = this, ptr = nx\<rparr> v cur;
     Some (map_sum id snd r)
   }"

definition pop_back :: "'a state \<Rightarrow> addr \<Rightarrow> (error + 'a state) option" where
  "pop_back st this = do {
     L \<leftarrow> lists st this;
     if list_n L = 0 then Some (Inl container_is_empty)
     else do {
       pv \<leftarrow> get_prev (nodes st) (list_s L);
       r \<leftarrow> erase_iter st this \<lparr>owner = this, ptr = pv\<rparr>;
       Some (map_sum id snd r)
     }
   }"

definition pop_front :: "'a state \<Rightarrow> addr \<Rightarrow> (error + 'a state) option" where
  "pop_front st this = do {
     L \<leftarrow> lists st this;
     if list_n L = 0 then Some (Inl container_is_empty)
     else do {
       nx \<leftarrow> get_next (nodes st) (list_s L);
       r \<leftarrow> erase_iter st this \<lparr>owner = this, ptr = nx\<rparr>;
       Some (map_sum id snd r)
     }
   }"

subsection \<open>\<open>clear\<close>, copy construction and assignment\<close>

text \<open>The loop of \<open>clear\<close>: \<open>while (cur != s) { nx = cur->next; delete cur; cur = nx; }\<close>.\<close>

partial_function (option) clear_loop :: "'a heap \<Rightarrow> addr \<Rightarrow> addr \<Rightarrow> 'a heap option" where
  "clear_loop h s cur =
     (if cur = s then Some h
      else do {
        nx \<leftarrow> get_next h cur;
        h1 \<leftarrow> delete_node h cur;
        clear_loop h1 s nx
      })"

declare clear_loop.simps [code]

definition clear :: "'a state \<Rightarrow> addr \<Rightarrow> 'a state option" where
  "clear st this = do {
     L \<leftarrow> lists st this;
     if list_n L = 0 then do {
       h1 \<leftarrow> set_prev (nodes st) (list_s L) (list_s L);
       h2 \<leftarrow> set_next h1 (list_s L) (list_s L);
       Some (st\<lparr>nodes := h2\<rparr>)
     } else do {
       cur \<leftarrow> get_next (nodes st) (list_s L);
       h \<leftarrow> clear_loop (nodes st) (list_s L) cur;
       h1 \<leftarrow> set_prev h (list_s L) (list_s L);
       h2 \<leftarrow> set_next h1 (list_s L) (list_s L);
       Some (st\<lparr>nodes := h2, lists := (lists st)(this \<mapsto> L\<lparr>list_n := 0\<rparr>)\<rparr>)
     }
   }"

text \<open>
  The loop shared by the copy constructor and \<open>operator=\<close>:
  \<open>for (x = other.s->next; x != other.s; x = x->next) push_back(*(x->val))\<close>.
  The list \<open>as\<close> holds the addresses that the successive \<open>new node\<close> return.
\<close>

partial_function (option) copy_loop ::
  "'a state \<Rightarrow> addr \<Rightarrow> addr \<Rightarrow> addr \<Rightarrow> addr list \<Rightarrow> (error + 'a state) option" where
  "copy_loop st this os x as =
     (if x = os then Some (Inr st)
      else do {
        v \<leftarrow> get_val (nodes st) x;
        case as of
          [] \<Rightarrow> None
        | a # as' \<Rightarrow> do {
            r \<leftarrow> push_back st this v a;
            case r of
              Inl e \<Rightarrow> Some (Inl e)
            | Inr st1 \<Rightarrow> do {
                x1 \<leftarrow> get_next (nodes st1) x;
                copy_loop st1 this os x1 as'
              }
          }
      })"

declare copy_loop.simps [code]

text \<open>\<open>list(const list &other)\<close>: the sentinel of the new object is built at \<open>a\<close>.\<close>

definition list_copy ::
  "'a state \<Rightarrow> addr \<Rightarrow> addr \<Rightarrow> addr \<Rightarrow> addr list \<Rightarrow> (error + 'a state) option" where
  "list_copy st this other a as = do {
     st1 \<leftarrow> list_ctor st this a;
     Lo \<leftarrow> lists st1 other;
     x \<leftarrow> get_next (nodes st1) (list_s Lo);
     copy_loop st1 this (list_s Lo) x as
   }"

text \<open>\<open>list &operator=(const list &other)\<close>.\<close>

definition list_assign ::
  "'a state \<Rightarrow> addr \<Rightarrow> addr \<Rightarrow> addr list \<Rightarrow> (error + 'a state) option" where
  "list_assign st this other as =
     (if this = other then Some (Inr st)
      else do {
        st1 \<leftarrow> clear st this;
        Lo \<leftarrow> lists st1 other;
        x \<leftarrow> get_next (nodes st1) (list_s Lo);
        copy_loop st1 this (list_s Lo) x as
      })"

subsection \<open>\<open>reverse\<close>\<close>

text \<open>
  \<open>do { t = cur->next; cur->next = cur->prev; cur->prev = t; cur = t; } while (cur != s)\<close>
\<close>

partial_function (option) reverse_loop :: "'a heap \<Rightarrow> addr \<Rightarrow> addr \<Rightarrow> 'a heap option" where
  "reverse_loop h s cur = do {
     t \<leftarrow> get_next h cur;
     pv \<leftarrow> get_prev h cur;
     h1 \<leftarrow> set_next h cur pv;
     h2 \<leftarrow> set_prev h1 cur t;
     if t \<noteq> s then reverse_loop h2 s t else Some h2
   }"

declare reverse_loop.simps [code]

definition reverse :: "'a state \<Rightarrow> addr \<Rightarrow> 'a state option" where
  "reverse st this = do {
     L \<leftarrow> lists st this;
     h \<leftarrow> reverse_loop (nodes st) (list_s L) (list_s L);
     Some (st\<lparr>nodes := h\<rparr>)
   }"

subsection \<open>\<open>unique\<close>\<close>

text \<open>
  The element type's \<open>operator==\<close> is the parameter \<open>eq\<close>. The inner loop:
  \<open>while (nx != s && *(cur->val) == *(nx->val)) { to_del = nx; nx = nx->next;
  erase(to_del); delete to_del; --n; }\<close>. It runs once per node it removes, so \<open>n\<close>
  does not pass below zero.
\<close>

partial_function (option) unique_inner ::
  "('a \<Rightarrow> 'a \<Rightarrow> bool) \<Rightarrow> 'a heap \<Rightarrow> nat \<Rightarrow> addr \<Rightarrow> addr \<Rightarrow> addr \<Rightarrow> ('a heap \<times> nat \<times> addr) option"
  where
  "unique_inner eq h n s cur nx =
     (if nx = s then Some (h, n, nx)
      else do {
        cv \<leftarrow> get_val h cur;
        nv \<leftarrow> get_val h nx;
        if eq cv nv then do {
          nx1 \<leftarrow> get_next h nx;
          h1 \<leftarrow> erase_node h nx;
          h2 \<leftarrow> delete_node h1 nx;
          unique_inner eq h2 (n - 1) s cur nx1
        } else Some (h, n, nx)
      })"

declare unique_inner.simps [code]

partial_function (option) unique_outer ::
  "('a \<Rightarrow> 'a \<Rightarrow> bool) \<Rightarrow> 'a heap \<Rightarrow> nat \<Rightarrow> addr \<Rightarrow> addr \<Rightarrow> ('a heap \<times> nat) option"
  where
  "unique_outer eq h n s cur =
     (if cur = s then Some (h, n)
      else do {
        nx \<leftarrow> get_next h cur;
        (h1, n1, nx1) \<leftarrow> unique_inner eq h n s cur nx;
        unique_outer eq h1 n1 s nx1
      })"

declare unique_outer.simps [code]

definition unique :: "('a \<Rightarrow> 'a \<Rightarrow> bool) \<Rightarrow> 'a state \<Rightarrow> addr \<Rightarrow> 'a state option" where
  "unique eq st this = do {
     L \<leftarrow> lists st this;
     if list_n L \<le> 1 then Some st
     else do {
       cur \<leftarrow> get_next (nodes st) (list_s L);
       (h, k) \<leftarrow> unique_outer eq (nodes st) (list_n L) (list_s L) cur;
       Some (st\<lparr>nodes := h, lists := (lists st)(this \<mapsto> L\<lparr>list_n := k\<rparr>)\<rparr>)
     }
   }"

subsection \<open>\<open>merge\<close>\<close>

text \<open>
  The element type's \<open>operator<\<close> is the parameter \<open>lt\<close>.
  \<open>while (a != s && !(*b->val < *a->val)) a = a->next;\<close>
\<close>

partial_function (option) merge_advance ::
  "('a \<Rightarrow> 'a \<Rightarrow> bool) \<Rightarrow> 'a heap \<Rightarrow> addr \<Rightarrow> addr \<Rightarrow> addr \<Rightarrow> addr option" where
  "merge_advance lt h s b a =
     (if a = s then Some a
      else do {
        bv \<leftarrow> get_val h b;
        av \<leftarrow> get_val h a;
        if \<not> lt bv av then do {
          a1 \<leftarrow> get_next h a;
          merge_advance lt h s b a1
        } else Some a
      })"

declare merge_advance.simps [code]

text \<open>\<open>while (b != other.s && (*b->val < *a->val)) { b = b->next; ++cnt; }\<close>\<close>

partial_function (option) merge_block ::
  "('a \<Rightarrow> 'a \<Rightarrow> bool) \<Rightarrow> 'a heap \<Rightarrow> addr \<Rightarrow> addr \<Rightarrow> addr \<Rightarrow> nat \<Rightarrow> (addr \<times> nat) option" where
  "merge_block lt h os a b cnt =
     (if b = os then Some (b, cnt)
      else do {
        bv \<leftarrow> get_val h b;
        av \<leftarrow> get_val h a;
        if lt bv av then do {
          b1 \<leftarrow> get_next h b;
          merge_block lt h os a b1 (cnt + 1)
        } else Some (b, cnt)
      })"

declare merge_block.simps [code]

text \<open>\<open>for (size_t i = 1; i < cnt; ++i) endblk = endblk->next;\<close> makes \<open>cnt - 1\<close> steps.\<close>

fun skip_next :: "'a heap \<Rightarrow> addr \<Rightarrow> nat \<Rightarrow> addr option" where
  "skip_next h a 0 = Some a"
| "skip_next h a (Suc k) = do { a1 \<leftarrow> get_next h a; skip_next h a1 k }"

text \<open>
  The branch \<open>a == s\<close>: the rest of \<open>other\<close>, from \<open>b\<close> to \<open>other.s->prev\<close>, is
  detached and linked in before \<open>s\<close>.
\<close>

definition merge_splice_end :: "'a heap \<Rightarrow> addr \<Rightarrow> addr \<Rightarrow> addr \<Rightarrow> 'a heap option" where
  "merge_splice_end h s os b = do {
     b_end \<leftarrow> get_prev h os;
     ben \<leftarrow> get_next h b_end;
     bp \<leftarrow> get_prev h b;
     h1 \<leftarrow> set_next h bp ben;
     bp1 \<leftarrow> get_prev h1 b;
     ben1 \<leftarrow> get_next h1 b_end;
     h2 \<leftarrow> set_prev h1 ben1 bp1;
     h3 \<leftarrow> set_next h2 os os;
     h4 \<leftarrow> set_prev h3 os os;
     sp \<leftarrow> get_prev h4 s;
     h5 \<leftarrow> set_next h4 sp b;
     sp1 \<leftarrow> get_prev h5 s;
     h6 \<leftarrow> set_prev h5 b sp1;
     h7 \<leftarrow> set_next h6 b_end s;
     set_prev h7 s b_end
   }"

text \<open>
  The other branch, after the block has been counted: \<open>endblk\<close> is found from \<open>b\<close>,
  the block from \<open>start\<close> to \<open>endblk\<close> is detached from \<open>other\<close> and linked in
  before \<open>a\<close>.
\<close>

definition merge_splice_block ::
  "'a heap \<Rightarrow> addr \<Rightarrow> addr \<Rightarrow> addr \<Rightarrow> addr \<Rightarrow> 'a heap option" where
  "merge_splice_block h os a start b = do {
     endblk \<leftarrow> (if b = os then get_prev h os else get_prev h b);
     en \<leftarrow> get_next h endblk;
     sp \<leftarrow> get_prev h start;
     h1 \<leftarrow> set_next h sp en;
     sp1 \<leftarrow> get_prev h1 start;
     en1 \<leftarrow> get_next h1 endblk;
     h2 \<leftarrow> set_prev h1 en1 sp1;
     ap \<leftarrow> get_prev h2 a;
     h3 \<leftarrow> set_next h2 ap start;
     ap1 \<leftarrow> get_prev h3 a;
     h4 \<leftarrow> set_prev h3 start ap1;
     h5 \<leftarrow> set_next h4 endblk a;
     set_prev h5 a endblk
   }"

text \<open>
  The outer loop \<open>while (b != other.s)\<close> with its two branches; \<open>n\<close> and \<open>on\<close> are the
  counters of this container and of \<open>other\<close>. The first branch returns from \<open>merge\<close>.
\<close>

partial_function (option) merge_loop ::
  "('a \<Rightarrow> 'a \<Rightarrow> bool) \<Rightarrow> 'a heap \<Rightarrow> addr \<Rightarrow> addr \<Rightarrow> nat \<Rightarrow> nat \<Rightarrow> addr \<Rightarrow> addr \<Rightarrow>
   ('a heap \<times> nat \<times> nat) option" where
  "merge_loop lt h s os n on a b =
     (if b = os then Some (h, n, on)
      else do {
        a1 \<leftarrow> merge_advance lt h s b a;
        if a1 = s then do {
          h1 \<leftarrow> merge_splice_end h s os b;
          Some (h1, n + on, 0)
        } else do {
          (b1, cnt) \<leftarrow> merge_block lt h os a1 b 0;
          e0 \<leftarrow> skip_next h b (cnt - 1);
          h1 \<leftarrow> merge_splice_block h os a1 b b1;
          merge_loop lt h1 s os (n + cnt) (on - cnt) a1 b1
        }
      })"

declare merge_loop.simps [code]

text \<open>
  The branch \<open>n == 0\<close>: the sentinel of this container takes over all nodes of
  \<open>other\<close>, whose sentinel is closed on itself.
\<close>

definition merge_take_all :: "'a heap \<Rightarrow> addr \<Rightarrow> addr \<Rightarrow> 'a heap option" where
  "merge_take_all h s os = do {
     on \<leftarrow> get_next h os;
     h1 \<leftarrow> set_next h s on;
     opv \<leftarrow> get_prev h1 os;
     h2 \<leftarrow> set_prev h1 s opv;
     sn \<leftarrow> get_next h2 s;
     h3 \<leftarrow> set_prev h2 sn s;
     sp \<leftarrow> get_prev h3 s;
     h4 \<leftarrow> set_next h3 sp s;
     h5 \<leftarrow> set_prev h4 os os;
     set_next h5 os os
   }"

definition merge ::
  "('a \<Rightarrow> 'a \<Rightarrow> bool) \<Rightarrow> 'a state \<Rightarrow> addr \<Rightarrow> addr \<Rightarrow> 'a state option" where
  "merge lt st this other = do {
     L \<leftarrow> lists st this;
     Lo \<leftarrow> lists st other;
     if this = other \<or> list_n Lo = 0 then Some st
     else if list_n L = 0 then do {
       h6 \<leftarrow> merge_take_all (nodes st) (list_s L) (list_s Lo);
       Some (st\<lparr>nodes := h6,
                lists := (lists st)(this \<mapsto> L\<lparr>list_n := list_n Lo\<rparr>, other \<mapsto> Lo\<lparr>list_n := 0\<rparr>)\<rparr>)
     } else do {
       a \<leftarrow> get_next (nodes st) (list_s L);
       b \<leftarrow> get_next (nodes st) (list_s Lo);
       (h, k, ok) \<leftarrow> merge_loop lt (nodes st) (list_s L) (list_s Lo) (list_n L) (list_n Lo) a b;
       Some (st\<lparr>nodes := h,
                lists := (lists st)(this \<mapsto> L\<lparr>list_n := k\<rparr>, other \<mapsto> Lo\<lparr>list_n := ok\<rparr>)\<rparr>)
     }
   }"

subsection \<open>\<open>sort\<close>\<close>

text \<open>
  The two arrays \<open>arr\<close> and \<open>tmp\<close> of \<open>m\<close> node pointers are lists of length \<open>m\<close>; an
  access outside \<open>0..<m\<close> has no meaning. Their content before the first write is
  indeterminate and taken to be null pointers. The shifts \<open>width << 1\<close> and the sums
  \<open>i + width\<close> stay below \<open>2 * m\<close> plus the last width, far below \<open>2^64\<close>.
\<close>

definition rd :: "addr list \<Rightarrow> nat \<Rightarrow> addr option" where
  "rd arr i = (if i < length arr then Some (arr ! i) else None)"

definition wr :: "addr list \<Rightarrow> nat \<Rightarrow> addr \<Rightarrow> addr list option" where
  "wr arr i x = (if i < length arr then Some (arr[i := x]) else None)"

text \<open>\<open>for (node *x = s->next; x != s; x = x->next) arr[idx++] = x;\<close>\<close>

partial_function (option) sort_fill ::
  "'a heap \<Rightarrow> addr \<Rightarrow> addr list \<Rightarrow> addr \<Rightarrow> nat \<Rightarrow> addr list option" where
  "sort_fill h s arr x idx =
     (if x = s then Some arr
      else do {
        arr1 \<leftarrow> wr arr idx x;
        x1 \<leftarrow> get_next h x;
        sort_fill h s arr1 x1 (idx + 1)
      })"

declare sort_fill.simps [code]

text \<open>The merge of the runs \<open>[p, mid)\<close> and \<open>[q, r)\<close> of \<open>arr\<close> into \<open>tmp\<close> from \<open>t\<close> on.\<close>

partial_function (option) sort_merge ::
  "('a \<Rightarrow> 'a \<Rightarrow> bool) \<Rightarrow> 'a heap \<Rightarrow> addr list \<Rightarrow> addr list \<Rightarrow> nat \<Rightarrow> nat \<Rightarrow> nat \<Rightarrow> nat \<Rightarrow> nat \<Rightarrow>
   (addr list \<times> nat \<times> nat \<times> nat) option" where
  "sort_merge lt h arr tmp p q t mid r =
     (if p < mid \<and> q < r then do {
        aq \<leftarrow> rd arr q;
        vq \<leftarrow> get_val h aq;
        ap \<leftarrow> rd arr p;
        vp \<leftarrow> get_val h ap;
        if \<not> lt vq vp then do {
          x \<leftarrow> rd arr p;
          tmp1 \<leftarrow> wr tmp t x;
          sort_merge lt h arr tmp1 (p + 1) q (t + 1) mid r
        } else do {
          x \<leftarrow> rd arr q;
          tmp1 \<leftarrow> wr tmp t x;
          sort_merge lt h arr tmp1 p (q + 1) (t + 1) mid r
        }
      } else Some (tmp, p, q, t))"

declare sort_merge.simps [code]

text \<open>
  \<open>while (p < mid) tmp[t++] = arr[p++];\<close> and \<open>while (q < r) tmp[t++] = arr[q++];\<close>
  are the same loop with another index and bound.
\<close>

partial_function (option) sort_drain ::
  "addr list \<Rightarrow> addr list \<Rightarrow> nat \<Rightarrow> nat \<Rightarrow> nat \<Rightarrow> (addr list \<times> nat) option" where
  "sort_drain arr tmp p t bound =
     (if p < bound then do {
        x \<leftarrow> rd arr p;
        tmp1 \<leftarrow> wr tmp t x;
        sort_drain arr tmp1 (p + 1) (t + 1) bound
      } else Some (tmp, t))"

declare sort_drain.simps [code]

text \<open>The three \<open>while\<close> loops of one merge, one after the other.\<close>

definition sort_merge_runs ::
  "('a \<Rightarrow> 'a \<Rightarrow> bool) \<Rightarrow> 'a heap \<Rightarrow> addr list \<Rightarrow> addr list \<Rightarrow> nat \<Rightarrow> nat \<Rightarrow> nat \<Rightarrow> nat \<Rightarrow> nat \<Rightarrow>
   addr list option" where
  "sort_merge_runs lt h arr tmp p q t mid r = do {
     (tmp1, p1, q1, t1) \<leftarrow> sort_merge lt h arr tmp p q t mid r;
     (tmp2, t2) \<leftarrow> sort_drain arr tmp1 p1 t1 mid;
     (tmp3, t3) \<leftarrow> sort_drain arr tmp2 q1 t2 r;
     Some tmp3
   }"

text \<open>\<open>for (size_t k = l; k < r; ++k) arr[k] = tmp[k];\<close>\<close>

partial_function (option) sort_copy_back ::
  "addr list \<Rightarrow> addr list \<Rightarrow> nat \<Rightarrow> nat \<Rightarrow> addr list option" where
  "sort_copy_back arr tmp k r =
     (if k < r then do {
        x \<leftarrow> rd tmp k;
        arr1 \<leftarrow> wr arr k x;
        sort_copy_back arr1 tmp (k + 1) r
      } else Some arr)"

declare sort_copy_back.simps [code]

text \<open>\<open>for (size_t i = 0; i < m; i += (width << 1)) { ... }\<close>\<close>

partial_function (option) sort_pass ::
  "('a \<Rightarrow> 'a \<Rightarrow> bool) \<Rightarrow> 'a heap \<Rightarrow> addr list \<Rightarrow> addr list \<Rightarrow> nat \<Rightarrow> nat \<Rightarrow> nat \<Rightarrow>
   (addr list \<times> addr list) option" where
  "sort_pass lt h arr tmp width i m =
     (if i < m then do {
        let l = i;
        let mid = (if i + width < m then i + width else m);
        let r = (if i + 2 * width < m then i + 2 * width else m);
        tmp3 \<leftarrow> sort_merge_runs lt h arr tmp l mid l mid r;
        arr1 \<leftarrow> sort_copy_back arr tmp3 l r;
        sort_pass lt h arr1 tmp3 width (i + 2 * width) m
      } else Some (arr, tmp))"

declare sort_pass.simps [code]

text \<open>\<open>for (size_t width = 1; width < m; width <<= 1) { ... }\<close>\<close>

partial_function (option) sort_widths ::
  "('a \<Rightarrow> 'a \<Rightarrow> bool) \<Rightarrow> 'a heap \<Rightarrow> addr list \<Rightarrow> addr list \<Rightarrow> nat \<Rightarrow> nat \<Rightarrow>
   (addr list \<times> addr list) option" where
  "sort_widths lt h arr tmp width m =
     (if width < m then do {
        (arr1, tmp1) \<leftarrow> sort_pass lt h arr tmp width 0 m;
        sort_widths lt h arr1 tmp1 (2 * width) m
      } else Some (arr, tmp))"

declare sort_widths.simps [code]

text \<open>
  \<open>for (size_t i = 1; i < m; ++i) { arr[i-1]->next = arr[i]; arr[i]->prev = arr[i-1]; }\<close>
\<close>

partial_function (option) sort_relink ::
  "'a heap \<Rightarrow> addr list \<Rightarrow> nat \<Rightarrow> nat \<Rightarrow> 'a heap option" where
  "sort_relink h arr i m =
     (if i < m then do {
        y \<leftarrow> rd arr i;
        x \<leftarrow> rd arr (i - 1);
        h1 \<leftarrow> set_next h x y;
        x1 \<leftarrow> rd arr (i - 1);
        y1 \<leftarrow> rd arr i;
        h2 \<leftarrow> set_prev h1 y1 x1;
        sort_relink h2 arr (i + 1) m
      } else Some h)"

declare sort_relink.simps [code]

definition sort :: "('a \<Rightarrow> 'a \<Rightarrow> bool) \<Rightarrow> 'a state \<Rightarrow> addr \<Rightarrow> 'a state option" where
  "sort lt st this = do {
     L \<leftarrow> lists st this;
     if list_n L \<le> 1 then Some st
     else do {
       let m = list_n L;
       x \<leftarrow> get_next (nodes st) (list_s L);
       arr \<leftarrow> sort_fill (nodes st) (list_s L) (replicate m nullptr) x 0;
       (arr1, tmp1) \<leftarrow> sort_widths lt (nodes st) arr (replicate m nullptr) 1 m;
       a0 \<leftarrow> rd arr1 0;
       h1 \<leftarrow> set_next (nodes st) (list_s L) a0;
       h2 \<leftarrow> set_prev h1 a0 (list_s L);
       h3 \<leftarrow> sort_relink h2 arr1 1 m;
       al \<leftarrow> rd arr1 (m - 1);
       h4 \<leftarrow> set_next h3 al (list_s L);
       h5 \<leftarrow> set_prev h4 (list_s L) al;
       Some (st\<lparr>nodes := h5\<rparr>)
     }
   }"

section \<open>The ring and what it represents\<close>

text \<open>
  \<open>link h a b\<close>: \<open>a\<close> and \<open>b\<close> are live, \<open>a->next == b\<close> and \<open>b->prev == a\<close>.
  \<open>chain h c\<close>: consecutive nodes of \<open>c\<close> are linked. \<open>cyc h c\<close>: so are the last and the
  first, which makes \<open>c\<close> a ring that is circular and doubly consistent.
\<close>

definition link :: "'a heap \<Rightarrow> addr \<Rightarrow> addr \<Rightarrow> bool" where
  "link h a b = (get_next h a = Some b \<and> get_prev h b = Some a)"

fun chain :: "'a heap \<Rightarrow> addr list \<Rightarrow> bool" where
  "chain h [] = True"
| "chain h [a] = (h a \<noteq> None)"
| "chain h (a # b # c) = (link h a b \<and> chain h (b # c))"

definition cyc :: "'a heap \<Rightarrow> addr list \<Rightarrow> bool" where
  "cyc h c = (case c of [] \<Rightarrow> False | a # r \<Rightarrow> chain h c \<and> link h (last c) a)"

text \<open>
  \<open>ring h s ps\<close>: the ring of sentinel \<open>s\<close> holds, in forward order, the data nodes whose
  addresses and values are the pairs of \<open>ps\<close>; the sentinel's value slot is empty.
\<close>

definition ring :: "'a heap \<Rightarrow> addr \<Rightarrow> (addr \<times> 'a) list \<Rightarrow> bool" where
  "ring h s ps =
     (s \<noteq> nullptr \<and> nullptr \<notin> set (map fst ps) \<and> distinct (s # map fst ps) \<and>
      cyc h (s # map fst ps) \<and> get_val h s = None \<and>
      list_all (\<lambda>x. get_val h (fst x) = Some (snd x)) ps)"

text \<open>The container at \<open>this\<close> represents \<open>ps\<close>: its ring holds \<open>ps\<close> and \<open>n\<close> counts it.\<close>

definition list_inv :: "'a state \<Rightarrow> addr \<Rightarrow> (addr \<times> 'a) list \<Rightarrow> bool" where
  "list_inv st this ps =
     (case lists st this of
        None \<Rightarrow> False
      | Some L \<Rightarrow> this \<noteq> nullptr \<and> ring (nodes st) (list_s L) ps \<and> list_n L = length ps)"

text \<open>
  Forward traversal: the nodes met by following \<open>next\<close> \<open>k\<close> times from \<open>a\<close>, with their
  values.
\<close>

fun cells :: "'a heap \<Rightarrow> addr \<Rightarrow> nat \<Rightarrow> (addr \<times> 'a) list option" where
  "cells h a 0 = Some []"
| "cells h a (Suc k) = do {
     nd \<leftarrow> h a;
     v \<leftarrow> val nd;
     r \<leftarrow> cells h (next nd) k;
     Some ((a, v) # r)
   }"

definition ring_of :: "'a state \<Rightarrow> addr \<Rightarrow> (addr \<times> 'a) list option" where
  "ring_of st this = do {
     L \<leftarrow> lists st this;
     b \<leftarrow> get_next (nodes st) (list_s L);
     cells (nodes st) b (list_n L)
   }"

text \<open>The state invariant of one container, as a function that can be evaluated.\<close>

definition inv :: "'a state \<Rightarrow> addr \<Rightarrow> bool" where
  "inv st this = (case ring_of st this of None \<Rightarrow> False | Some ps \<Rightarrow> list_inv st this ps)"

text \<open>
  An iterator is valid while it denotes a node of its owner's current ring, the sentinel
  included.
\<close>

definition valid_iter :: "'a state \<Rightarrow> iterator \<Rightarrow> bool" where
  "valid_iter st it =
     (case lists st (owner it) of
        None \<Rightarrow> False
      | Some L \<Rightarrow>
          (case ring_of st (owner it) of
             None \<Rightarrow> False
           | Some ps \<Rightarrow> ptr it \<in> set (list_s L # map fst ps)))"


section \<open>Auxiliary notions for the proofs\<close>

text \<open>Total versions of the two field writes: they leave a heap without the node as it is.\<close>

definition upd_next :: "'a heap \<Rightarrow> addr \<Rightarrow> addr \<Rightarrow> 'a heap" where
  "upd_next h a b = (case h a of None \<Rightarrow> h | Some nd \<Rightarrow> h(a \<mapsto> nd\<lparr>next := b\<rparr>))"

definition upd_prev :: "'a heap \<Rightarrow> addr \<Rightarrow> addr \<Rightarrow> 'a heap" where
  "upd_prev h a b = (case h a of None \<Rightarrow> h | Some nd \<Rightarrow> h(a \<mapsto> nd\<lparr>prev := b\<rparr>))"

text \<open>Consecutive nodes of a list are joined by \<open>next\<close> (nothing is said of \<open>prev\<close>).\<close>

fun nchain :: "'a heap \<Rightarrow> addr list \<Rightarrow> bool" where
  "nchain h (a # b # c) = (get_next h a = Some b \<and> nchain h (b # c))"
| "nchain h c = True"

text \<open>The heap in which every node of a set has its two links exchanged.\<close>

definition swap_links :: "'a node \<Rightarrow> 'a node" where
  "swap_links nd = nd\<lparr>next := prev nd, prev := next nd\<rparr>"

definition swap_on :: "addr set \<Rightarrow> 'a heap \<Rightarrow> 'a heap" where
  "swap_on C h = (\<lambda>a. if a \<in> C then map_option swap_links (h a) else h a)"

text \<open>
  What \<open>unique\<close> computes on the sequence of a ring: each element is kept and the
  elements after it that \<open>eq\<close> relates to it are dropped.
\<close>

function uniq :: "('a \<Rightarrow> 'a \<Rightarrow> bool) \<Rightarrow> (addr \<times> 'a) list \<Rightarrow> (addr \<times> 'a) list" where
  "uniq eq [] = []"
| "uniq eq (x # xs) = x # uniq eq (dropWhile (\<lambda>y. eq (snd x) (snd y)) xs)"
  by pat_completeness auto

termination
  by (relation "measure (\<lambda>(eq, xs). length xs)")
    (auto simp: le_imp_less_Suc length_dropWhile_le)

text \<open>
  The first element of every maximal run of consecutive elements with the same key: an
  element is dropped iff its key is that of the element just before it.
\<close>

fun first_of_runs :: "('b \<Rightarrow> 'k) \<Rightarrow> 'b list \<Rightarrow> 'b list" where
  "first_of_runs k [] = []"
| "first_of_runs k [x] = [x]"
| "first_of_runs k (x # y # r) =
     (if k x = k y then first_of_runs k (x # r) else x # first_of_runs k (y # r))"

text \<open>
  The stable merge of two sequences of nodes by \<open>lt\<close> on their values: an element of the
  second sequence goes first only when it is less than the head of the first.
\<close>

fun merge_lists ::
  "('a \<Rightarrow> 'a \<Rightarrow> bool) \<Rightarrow> (addr \<times> 'a) list \<Rightarrow> (addr \<times> 'a) list \<Rightarrow> (addr \<times> 'a) list" where
  "merge_lists lt [] ys = ys"
| "merge_lists lt xs [] = xs"
| "merge_lists lt (x # xs) (y # ys) =
     (if lt (snd y) (snd x) then y # merge_lists lt (x # xs) ys
      else x # merge_lists lt xs (y # ys))"

text \<open>
  One pass of the bottom-up merge sort on a sequence: neighbouring runs of \<open>w\<close> elements
  are merged. \<open>widths\<close> repeats it with doubled width until one run covers the sequence.
\<close>

function pass ::
  "('a \<Rightarrow> 'a \<Rightarrow> bool) \<Rightarrow> nat \<Rightarrow> (addr \<times> 'a) list \<Rightarrow> (addr \<times> 'a) list" where
  "pass lt w P =
     (if P = [] \<or> w = 0 then P
      else merge_lists lt (take w P) (take w (drop w P)) @ pass lt w (drop (2 * w) P))"
  by pat_completeness auto

termination
  by (relation "measure (\<lambda>(lt, w, P). length P)") auto

declare pass.simps [simp del]

function widths ::
  "('a \<Rightarrow> 'a \<Rightarrow> bool) \<Rightarrow> nat \<Rightarrow> nat \<Rightarrow> (addr \<times> 'a) list \<Rightarrow> (addr \<times> 'a) list" where
  "widths lt w m P = (if 0 < w \<and> w < m then widths lt (2 * w) m (pass lt w P) else P)"
  by pat_completeness auto

termination
  by (relation "measure (\<lambda>(lt, w, m, P). m - w)") auto

declare widths.simps [simp del]

text \<open>Every run of \<open>w\<close> elements is sorted by the key \<open>f\<close>.\<close>

function runs_sorted :: "('b \<Rightarrow> 'k :: linorder) \<Rightarrow> nat \<Rightarrow> 'b list \<Rightarrow> bool" where
  "runs_sorted f w P =
     (if P = [] \<or> w = 0 then True
      else sorted (map f (take w P)) \<and> runs_sorted f w (drop w P))"
  by pat_completeness auto

termination
  by (relation "measure (\<lambda>(f, w, P). length P)") auto

declare runs_sorted.simps [simp del]

text \<open>The heap in which consecutive nodes of a list have been linked, front to back.\<close>

fun link_all :: "'a heap \<Rightarrow> addr list \<Rightarrow> 'a heap" where
  "link_all h (a # b # c) = link_all (upd_prev (upd_next h a b) b a) (b # c)"
| "link_all h c = h"

section \<open>Example states\<close>

text \<open>A container at address 1 with sentinel 10 and the data nodes 11, 12, 13.\<close>

definition ex_nodes :: "nat heap" where
  "ex_nodes = [10 \<mapsto> \<lparr>prev = 13, next = 11, val = None\<rparr>,
               11 \<mapsto> \<lparr>prev = 10, next = 12, val = Some 5\<rparr>,
               12 \<mapsto> \<lparr>prev = 11, next = 13, val = Some 6\<rparr>,
               13 \<mapsto> \<lparr>prev = 12, next = 10, val = Some 7\<rparr>]"

definition ex_state :: "nat state" where
  "ex_state = \<lparr>nodes = ex_nodes, lists = [1 \<mapsto> \<lparr>list_s = 10, list_n = 3\<rparr>]\<rparr>"

text \<open>A container at address 1 with sentinel 10 and the single data node 11.\<close>

definition ex_single :: "nat state" where
  "ex_single = \<lparr>nodes = [10 \<mapsto> \<lparr>prev = 11, next = 11, val = None\<rparr>,
                          11 \<mapsto> \<lparr>prev = 10, next = 10, val = Some 5\<rparr>],
                lists = [1 \<mapsto> \<lparr>list_s = 10, list_n = 1\<rparr>]\<rparr>"

text \<open>The state that \<open>pop_back\<close> leaves of \<open>ex_single\<close>: node 11 is gone.\<close>

definition ex_popped :: "nat state" where
  "ex_popped = \<lparr>nodes = [10 \<mapsto> \<lparr>prev = 10, next = 10, val = None\<rparr>],
                lists = [1 \<mapsto> \<lparr>list_s = 10, list_n = 0\<rparr>]\<rparr>"

text \<open>A container at address 1 with sentinel 10 and the values 1, 1, 2, 1, 1, 3, 3.\<close>

definition ex_runs :: "nat state" where
  "ex_runs = \<lparr>nodes = [10 \<mapsto> \<lparr>prev = 17, next = 11, val = None\<rparr>,
                        11 \<mapsto> \<lparr>prev = 10, next = 12, val = Some 1\<rparr>,
                        12 \<mapsto> \<lparr>prev = 11, next = 13, val = Some 1\<rparr>,
                        13 \<mapsto> \<lparr>prev = 12, next = 14, val = Some 2\<rparr>,
                        14 \<mapsto> \<lparr>prev = 13, next = 15, val = Some 1\<rparr>,
                        15 \<mapsto> \<lparr>prev = 14, next = 16, val = Some 1\<rparr>,
                        16 \<mapsto> \<lparr>prev = 15, next = 17, val = Some 3\<rparr>,
                        17 \<mapsto> \<lparr>prev = 16, next = 10, val = Some 3\<rparr>],
              lists = [1 \<mapsto> \<lparr>list_s = 10, list_n = 7\<rparr>]\<rparr>"

text \<open>
  Two containers: at address 1 with sentinel 10 and the values 1, 3, 5, and at address 2
  with sentinel 20 and the values 2, 3, 4.
\<close>

definition ex_two :: "nat state" where
  "ex_two = \<lparr>nodes = [10 \<mapsto> \<lparr>prev = 13, next = 11, val = None\<rparr>,
                       11 \<mapsto> \<lparr>prev = 10, next = 12, val = Some 1\<rparr>,
                       12 \<mapsto> \<lparr>prev = 11, next = 13, val = Some 3\<rparr>,
                       13 \<mapsto> \<lparr>prev = 12, next = 10, val = Some 5\<rparr>,
                       20 \<mapsto> \<lparr>prev = 23, next = 21, val = None\<rparr>,
                       21 \<mapsto> \<lparr>prev = 20, next = 22, val = Some 2\<rparr>,
                       22 \<mapsto> \<lparr>prev = 21, next = 23, val = Some 3\<rparr>,
                       23 \<mapsto> \<lparr>prev = 22, next = 20, val = Some 4\<rparr>],
             lists = [1 \<mapsto> \<lparr>list_s = 10, list_n = 3\<rparr>, 2 \<mapsto> \<lparr>list_s = 20, list_n = 3\<rparr>]\<rparr>"

section \<open>Heap reasoning\<close>

lemma get_next_upd [simp]: "get_next (h(a \<mapsto> nd)) x = (if x = a then Some (next nd) else get_next h x)"
  by (simp add: get_next_def)
lemma get_prev_upd [simp]: "get_prev (h(a \<mapsto> nd)) x = (if x = a then Some (prev nd) else get_prev h x)"
  by (simp add: get_prev_def)
lemma get_val_upd [simp]: "get_val (h(a \<mapsto> nd)) x = (if x = a then val nd else get_val h x)"
  by (simp add: get_val_def)
lemma get_next_del [simp]: "get_next (h(a := None)) x = (if x = a then None else get_next h x)"
  by (simp add: get_next_def)
lemma get_prev_del [simp]: "get_prev (h(a := None)) x = (if x = a then None else get_prev h x)"
  by (simp add: get_prev_def)
lemma get_val_del [simp]: "get_val (h(a := None)) x = (if x = a then None else get_val h x)"
  by (simp add: get_val_def)

lemma get_next_Some_iff: "get_next h a = Some b \<longleftrightarrow> (\<exists>nd. h a = Some nd \<and> next nd = b)"
  by (auto simp: get_next_def)
lemma get_prev_Some_iff: "get_prev h a = Some b \<longleftrightarrow> (\<exists>nd. h a = Some nd \<and> prev nd = b)"
  by (auto simp: get_prev_def)
lemma get_val_Some_iff: "get_val h a = Some v \<longleftrightarrow> (\<exists>nd. h a = Some nd \<and> val nd = Some v)"
  by (cases "h a") (auto simp: get_val_def)

lemma set_next_Some: "h a = Some nd \<Longrightarrow> set_next h a b = Some (h(a \<mapsto> nd\<lparr>next := b\<rparr>))"
  by (simp add: set_next_def)
lemma set_prev_Some: "h a = Some nd \<Longrightarrow> set_prev h a b = Some (h(a \<mapsto> nd\<lparr>prev := b\<rparr>))"
  by (simp add: set_prev_def)

lemma link_live: "link h a b \<Longrightarrow> h a \<noteq> None \<and> h b \<noteq> None"
  by (auto simp: link_def get_next_def get_prev_def)

lemma chain_live: "chain h c \<Longrightarrow> x \<in> set c \<Longrightarrow> h x \<noteq> None"
  by (induction h c rule: chain.induct) (auto dest: link_live)

lemma chain_append:
  "chain h (xs @ ys) \<longleftrightarrow>
     chain h xs \<and> chain h ys \<and> (xs \<noteq> [] \<and> ys \<noteq> [] \<longrightarrow> link h (last xs) (hd ys))"
proof (induction h xs rule: chain.induct)
  case (1 h)
  then show ?case by simp
next
  case (2 h a)
  then show ?case by (cases ys) (auto dest: link_live)
next
  case (3 h a b c)
  then show ?case by auto
qed

lemma chain_frame:
  assumes "chain h c"
    and "\<And>x. x \<in> set (butlast c) \<Longrightarrow> get_next k x = get_next h x"
    and "\<And>x. x \<in> set (tl c) \<Longrightarrow> get_prev k x = get_prev h x"
    and "\<And>x. x \<in> set c \<Longrightarrow> k x \<noteq> None"
  shows "chain k c"
  using assms
proof (induction h c rule: chain.induct)
  case (1 h)
  then show ?case by simp
next
  case (2 h a)
  then show ?case by simp
next
  case (3 h a b c)
  have "link k a b" using "3.prems"(1,2,3) by (simp add: link_def)
  moreover have "chain k (b # c)"
    using "3.prems" by (intro "3.IH") auto
  ultimately show ?case by simp
qed

lemma cyc_alt: "cyc h c \<longleftrightarrow> c \<noteq> [] \<and> chain h c \<and> link h (last c) (hd c)"
  by (cases c) (auto simp: cyc_def)

lemma cyc_rotate: "cyc h (xs @ ys) = cyc h (ys @ xs)"
  by (cases "xs = []"; cases "ys = []") (auto simp: cyc_alt chain_append)

lemma set_next_upd: "h a \<noteq> None \<Longrightarrow> set_next h a b = Some (upd_next h a b)"
  by (auto simp: set_next_def upd_next_def)

lemma set_prev_upd: "h a \<noteq> None \<Longrightarrow> set_prev h a b = Some (upd_prev h a b)"
  by (auto simp: set_prev_def upd_prev_def)

lemma upd_next_obs [simp]:
  "get_next (upd_next h a b) x = (if x = a \<and> h a \<noteq> None then Some b else get_next h x)"
  "get_prev (upd_next h a b) x = get_prev h x"
  "get_val (upd_next h a b) x = get_val h x"
  "(upd_next h a b x = None) = (h x = None)"
  by (auto simp: upd_next_def get_next_def get_prev_def get_val_def split: option.splits)

lemma upd_prev_obs [simp]:
  "get_prev (upd_prev h a b) x = (if x = a \<and> h a \<noteq> None then Some b else get_prev h x)"
  "get_next (upd_prev h a b) x = get_next h x"
  "get_val (upd_prev h a b) x = get_val h x"
  "(upd_prev h a b x = None) = (h x = None)"
  by (auto simp: upd_prev_def get_next_def get_prev_def get_val_def split: option.splits)

lemma upd_live [simp]:
  "(\<exists>y. upd_next h a b x = Some y) = (\<exists>y. h x = Some y)"
  "(\<exists>y. upd_prev h a b x = Some y) = (\<exists>y. h x = Some y)"
  by (auto simp: upd_next_def upd_prev_def split: option.splits)

lemma upd_next_other: "x \<noteq> a \<Longrightarrow> upd_next h a b x = h x"
  by (auto simp: upd_next_def split: option.splits)

lemma upd_prev_other: "x \<noteq> a \<Longrightarrow> upd_prev h a b x = h x"
  by (auto simp: upd_prev_def split: option.splits)

lemma get_next_live: "get_next h a = Some b \<Longrightarrow> h a \<noteq> None"
  by (auto simp: get_next_def)

lemma get_prev_live: "get_prev h a = Some b \<Longrightarrow> h a \<noteq> None"
  by (auto simp: get_prev_def)

lemma delete_node_live: "h b \<noteq> None \<Longrightarrow> b \<noteq> nullptr \<Longrightarrow> delete_node h b = Some (h(b := None))"
  by (auto simp: delete_node_def)

lemma erase_node_eff:
  assumes "get_prev h b = Some pp" "get_next h b = Some pn" "h pp \<noteq> None" "h pn \<noteq> None"
  shows "erase_node h b = Some (upd_prev (upd_next h pp pn) pn pp)"
  using assms
  by (auto simp: erase_node_def set_next_upd set_prev_upd)

lemma insert_node_eff:
  assumes "h cur \<noteq> None" "get_prev h pos = Some pp" "h pp \<noteq> None" "cur \<noteq> pos" "cur \<noteq> pp"
  shows "insert_node h pos cur =
         Some (upd_prev (upd_next (upd_prev (upd_next h cur pos) cur pp) pp cur) pos cur)"
proof -
  have "h pos \<noteq> None" using assms(2) by (rule get_prev_live)
  then show ?thesis using assms
    by (simp add: insert_node_def set_next_upd set_prev_upd)
qed


lemma cyc_erase:
  assumes "cyc h (b # R)" "R \<noteq> []" "distinct (b # R)"
  shows "get_next h b = Some (hd R)" "get_prev h b = Some (last R)"
    "cyc ((upd_prev (upd_next h (last R) (hd R)) (hd R) (last R))(b := None)) R"
proof -
  obtain r R' where R: "R = r # R'" using assms(2) by (cases R) auto
  have ch: "chain h R" and l1: "link h b (hd R)" and l2: "link h (last R) b"
    using assms(1) by (auto simp: cyc_alt R)
  show "get_next h b = Some (hd R)" using l1 by (simp add: link_def)
  show "get_prev h b = Some (last R)" using l2 by (simp add: link_def)
  let ?k = "(upd_prev (upd_next h (last R) (hd R)) (hd R) (last R))(b := None)"
  have live: "\<And>x. x \<in> set R \<Longrightarrow> h x \<noteq> None" using ch chain_live by blast
  have bR: "b \<notin> set R" using assms(3) by simp
  have dR: "distinct R" using assms(3) by simp
  have "chain ?k R"
  proof (rule chain_frame[OF ch])
    fix x assume x: "x \<in> set (butlast R)"
    then have "x \<noteq> last R" using dR
      by (metis assms(2) append_butlast_last_id distinct_butlast not_distinct_conv_prefix snoc_eq_iff_butlast distinct_append disjoint_iff list.set_intros(1))
    moreover have "x \<noteq> b" using x bR by (meson in_set_butlastD)
    ultimately show "get_next ?k x = get_next h x" by simp
  next
    fix x assume x: "x \<in> set (tl R)"
    then have "x \<noteq> hd R" using dR R by auto
    moreover have "x \<noteq> b" using x bR R by auto
    ultimately show "get_prev ?k x = get_prev h x" by simp
  next
    fix x assume "x \<in> set R"
    then show "?k x \<noteq> None" using live bR by auto
  qed
  moreover have "link ?k (last R) (hd R)"
    using live bR R by (auto simp: link_def)
  ultimately show "cyc ?k R" using assms(2) by (simp add: cyc_alt)
qed


lemma cyc_insert:
  assumes "cyc h (pos # R)" "distinct (pos # R)" "cur \<notin> set (pos # R)" "h cur \<noteq> None"
  defines "pp \<equiv> last (pos # R)"
  shows "get_prev h pos = Some pp"
    "cyc (upd_prev (upd_next (upd_prev (upd_next h cur pos) cur pp) pp cur) pos cur)
         (cur # pos # R)"
proof -
  have ch: "chain h (pos # R)" and l: "link h pp pos"
    using assms(1) by (auto simp: cyc_alt pp_def)
  show "get_prev h pos = Some pp" using l by (simp add: link_def)
  let ?k = "upd_prev (upd_next (upd_prev (upd_next h cur pos) cur pp) pp cur) pos cur"
  have live: "\<And>x. x \<in> set (pos # R) \<Longrightarrow> h x \<noteq> None" using ch chain_live by blast
  have ppin: "pp \<in> set (pos # R)" unfolding pp_def by (rule last_in_set) simp
  have cpp: "cur \<noteq> pp" "cur \<noteq> pos" using assms(3) ppin by auto
  have "chain ?k (pos # R)"
  proof (rule chain_frame[OF ch])
    fix x assume x: "x \<in> set (butlast (pos # R))"
    then have "x \<noteq> pp" unfolding pp_def using assms(2)
      by (metis append_butlast_last_id distinct_append disjoint_iff list.set_intros(1) list.simps(3))
    moreover have "x \<noteq> cur" using x assms(3) by (meson in_set_butlastD)
    ultimately show "get_next ?k x = get_next h x" by simp
  next
    fix x assume x: "x \<in> set (tl (pos # R))"
    then have "x \<noteq> pos" "x \<noteq> cur" using assms(2,3) by auto
    then show "get_prev ?k x = get_prev h x" by simp
  next
    fix x assume "x \<in> set (pos # R)"
    then show "?k x \<noteq> None" using live by simp
  qed
  moreover have "link ?k cur pos" using cpp assms(4) live by (simp add: link_def)
  moreover have "link ?k pp cur" using cpp assms(4) live ppin by (simp add: link_def)
  ultimately show "cyc ?k (cur # pos # R)"
    by (simp add: cyc_alt pp_def)
qed

lemma vals_frame:
  assumes "list_all (\<lambda>x. get_val h (fst x) = Some (snd x)) ps"
    and "\<And>a. a \<in> set (map fst ps) \<Longrightarrow> get_val k a = get_val h a"
  shows "list_all (\<lambda>x. get_val k (fst x) = Some (snd x)) ps"
  using assms by (induction ps) auto

lemma ring_rot:
  assumes "ring h s (pre @ post)"
  shows "cyc h (map fst post @ s # map fst pre)"
proof -
  have "cyc h ((s # map fst pre) @ map fst post)" using assms by (simp add: ring_def)
  then show ?thesis by (subst cyc_rotate) simp
qed

lemma ring_live: "ring h s ps \<Longrightarrow> x \<in> set (s # map fst ps) \<Longrightarrow> h x \<noteq> None"
  unfolding ring_def cyc_alt using chain_live by blast

lemma ring_erase:
  assumes "ring h s (pre @ (b, v) # post)"
  defines "pp \<equiv> last (s # map fst pre)" and "pn \<equiv> hd (map fst post @ [s])"
  shows "get_next h b = Some pn" "get_prev h b = Some pp" "get_val h b = Some v"
    "h pp \<noteq> None" "h pn \<noteq> None" "b \<noteq> nullptr" "b \<noteq> s"
    "ring ((upd_prev (upd_next h pp pn) pn pp)(b := None)) s (pre @ post)"
proof -
  let ?R = "map fst post @ s # map fst pre"
  have c: "cyc h (b # ?R)" using ring_rot[OF assms(1)] by simp
  have d: "distinct (b # ?R)" using assms(1) by (auto simp: ring_def)
  have ne: "?R \<noteq> []" by simp
  have hdR: "hd ?R = pn" by (cases post) (auto simp: pn_def)
  have lastR: "last ?R = pp" by (simp add: pp_def)
  note E = cyc_erase[OF c ne d, unfolded hdR lastR]
  show "get_next h b = Some pn" "get_prev h b = Some pp" using E by auto
  show "get_val h b = Some v" "b \<noteq> nullptr" "b \<noteq> s" using assms(1) by (auto simp: ring_def)
  have "pp \<in> set ?R" "pn \<in> set ?R"
    using last_in_set[OF ne] hd_in_set[OF ne] unfolding hdR lastR by auto
  then have "pp \<in> set (s # map fst (pre @ (b, v) # post))"
    "pn \<in> set (s # map fst (pre @ (b, v) # post))" by auto
  then show "h pp \<noteq> None" "h pn \<noteq> None" using ring_live[OF assms(1)] by blast+
  let ?k = "(upd_prev (upd_next h pp pn) pn pp)(b := None)"
  have "cyc ?k ((map fst post) @ (s # map fst pre))" using E(3) .
  then have "cyc ?k ((s # map fst pre) @ map fst post)" by (subst cyc_rotate)
  moreover have "list_all (\<lambda>x. get_val ?k (fst x) = Some (snd x)) (pre @ post)"
  proof (rule vals_frame)
    show "list_all (\<lambda>x. get_val h (fst x) = Some (snd x)) (pre @ post)"
      using assms(1) by (simp add: ring_def)
    fix a assume "a \<in> set (map fst (pre @ post))"
    then have "a \<noteq> b" using d by auto
    then show "get_val ?k a = get_val h a" by simp
  qed
  moreover have "get_val ?k s = None" using assms(1) by (auto simp: ring_def)
  ultimately show "ring ?k s (pre @ post)"
    using assms(1) by (simp add: ring_def)
qed

lemma ring_insert:
  fixes v :: 'a and h :: "'a heap"
  assumes "ring h s (pre @ post)" "h cur = None" "cur \<noteq> nullptr"
    and pos_def: "pos = hd (map fst post @ [s])" and pp_def: "pp = last (s # map fst pre)"
    and h0_def: "h0 = h(cur \<mapsto> \<lparr>prev = nullptr, next = nullptr, val = Some v\<rparr>)"
  shows "get_prev h0 pos = Some pp" "h0 pp \<noteq> None" "cur \<noteq> pos" "cur \<noteq> pp"
    "ring (upd_prev (upd_next (upd_prev (upd_next h0 cur pos) cur pp) pp cur) pos cur) s
       (pre @ (cur, v) # post)"
proof -
  let ?R = "tl (map fst post @ s # map fst pre)"
  have ne: "map fst post @ s # map fst pre \<noteq> []" by simp
  have posR: "pos # ?R = map fst post @ s # map fst pre"
    by (cases post) (auto simp: pos_def)
  have live: "\<And>x. x \<in> set (s # map fst (pre @ post)) \<Longrightarrow> h x \<noteq> None"
    using ring_live[OF assms(1)] by blast
  have curnot: "cur \<notin> set (s # map fst (pre @ post))" using live assms(2) by blast
  then have curR: "cur \<notin> set (pos # ?R)" unfolding posR by auto
  have c0: "cyc h (pos # ?R)" unfolding posR using ring_rot[OF assms(1)] .
  have h0_other: "\<And>x. x \<noteq> cur \<Longrightarrow> h0 x = h x" by (simp add: h0_def)
  have obs0: "\<And>x. x \<noteq> cur \<Longrightarrow> get_next h0 x = get_next h x"
    "\<And>x. x \<noteq> cur \<Longrightarrow> get_prev h0 x = get_prev h x"
    "\<And>x. x \<noteq> cur \<Longrightarrow> get_val h0 x = get_val h x"
    by (simp_all add: h0_def)
  have ch: "chain h (pos # ?R)" using c0 by (simp add: cyc_alt)
  have "chain h0 (pos # ?R)"
  proof (rule chain_frame[OF ch])
    fix x assume "x \<in> set (butlast (pos # ?R))"
    then have "x \<noteq> cur" using curR by (meson in_set_butlastD)
    then show "get_next h0 x = get_next h x" by (rule obs0)
  next
    fix x assume "x \<in> set (tl (pos # ?R))"
    then have "x \<noteq> cur" using curR by auto
    then show "get_prev h0 x = get_prev h x" by (rule obs0)
  next
    fix x assume "x \<in> set (pos # ?R)"
    then show "h0 x \<noteq> None" using chain_live[OF ch] curR h0_other by metis
  qed
  moreover have "link h0 (last (pos # ?R)) pos"
  proof -
    have "last (pos # ?R) \<noteq> cur" "pos \<noteq> cur"
      using curR last_in_set[of "pos # ?R"] by auto
    moreover have "link h (last (pos # ?R)) pos" using c0 by (simp add: cyc_alt)
    ultimately show ?thesis by (simp add: link_def obs0)
  qed
  ultimately have c: "cyc h0 (pos # ?R)" by (simp add: cyc_alt)
  have d: "distinct (pos # ?R)" unfolding posR using assms(1) by (auto simp: ring_def)
  have lst: "last (pos # ?R) = pp" unfolding posR by (simp add: pp_def)
  have hc: "h0 cur \<noteq> None" by (simp add: h0_def)
  note I = cyc_insert[OF c d curR hc, unfolded lst]
  show "get_prev h0 pos = Some pp" using I(1) .
  have ppin: "pp \<in> set (pos # ?R)" using last_in_set[of "pos # ?R"] lst by auto
  then show "h0 pp \<noteq> None" using c chain_live unfolding cyc_alt by blast
  show "cur \<noteq> pos" "cur \<noteq> pp" using curR ppin by auto
  let ?k = "upd_prev (upd_next (upd_prev (upd_next h0 cur pos) cur pp) pp cur) pos cur"
  have "cyc ?k ((cur # map fst post) @ (s # map fst pre))"
    using I(2) unfolding posR by simp
  then have "cyc ?k ((s # map fst pre) @ (cur # map fst post))" by (subst cyc_rotate)
  moreover have "list_all (\<lambda>x. get_val ?k (fst x) = Some (snd x)) (pre @ (cur, v) # post)"
  proof -
    have "list_all (\<lambda>x. get_val ?k (fst x) = Some (snd x)) (pre @ post)"
    proof (rule vals_frame)
      show "list_all (\<lambda>x. get_val h (fst x) = Some (snd x)) (pre @ post)"
        using assms(1) by (simp add: ring_def)
      fix a assume "a \<in> set (map fst (pre @ post))"
      then have "a \<noteq> cur" using curnot by auto
      then show "get_val ?k a = get_val h a" by (simp add: obs0)
    qed
    moreover have "get_val ?k cur = Some v" by (simp add: h0_def)
    ultimately show ?thesis by simp
  qed
  moreover have "get_val ?k s = None" using assms(1) curnot by (auto simp: ring_def obs0)
  ultimately show "ring ?k s (pre @ (cur, v) # post)"
    using assms(1,3) curnot by (simp add: ring_def)
qed


lemma ring_frame:
  assumes "ring h s ps" and "\<And>x. x \<in> set (s # map fst ps) \<Longrightarrow> k x = h x"
  shows "ring k s ps"
proof -
  have obs: "get_next k x = get_next h x" "get_prev k x = get_prev h x"
    "get_val k x = get_val h x" if "x \<in> set (s # map fst ps)" for x
    using assms(2)[OF that] by (simp_all add: get_next_def get_prev_def get_val_def)
  have c: "cyc h (s # map fst ps)" using assms(1) by (simp add: ring_def)
  then have ch: "chain h (s # map fst ps)" by (simp add: cyc_alt)
  have "chain k (s # map fst ps)"
  proof (rule chain_frame[OF ch])
    fix x assume "x \<in> set (butlast (s # map fst ps))"
    then show "get_next k x = get_next h x" by (meson in_set_butlastD obs(1))
  next
    fix x assume "x \<in> set (tl (s # map fst ps))"
    then show "get_prev k x = get_prev h x" using obs(2) by simp
  next
    fix x assume x: "x \<in> set (s # map fst ps)"
    then show "k x \<noteq> None" using chain_live[OF ch x] assms(2)[OF x] by simp
  qed
  moreover have "link k (last (s # map fst ps)) s"
  proof -
    have "last (s # map fst ps) \<in> set (s # map fst ps)" by (rule last_in_set) simp
    moreover have "link h (last (s # map fst ps)) s" using c by (simp add: cyc_alt)
    ultimately show ?thesis using obs(1)[of "last (s # map fst ps)"] obs(2)[of s]
      by (simp add: link_def)
  qed
  ultimately have "cyc k (s # map fst ps)" by (simp add: cyc_alt)
  moreover have "list_all (\<lambda>x. get_val k (fst x) = Some (snd x)) ps"
  proof (rule vals_frame)
    show "list_all (\<lambda>x. get_val h (fst x) = Some (snd x)) ps"
      using assms(1) by (simp add: ring_def)
  qed (use obs(3) in auto)
  ultimately show ?thesis using assms(1) obs(3)[of s] by (simp add: ring_def)
qed

lemma ring_sentinel:
  assumes "ring h s ps"
  shows "get_next h s = Some (hd (map fst ps @ [s]))"
    "get_prev h s = Some (last (s # map fst ps))"
proof -
  have c: "cyc h (s # map fst ps)" using assms by (simp add: ring_def)
  show "get_prev h s = Some (last (s # map fst ps))"
    using c by (simp add: cyc_alt link_def)
  show "get_next h s = Some (hd (map fst ps @ [s]))"
    using c by (cases ps) (auto simp: cyc_alt link_def)
qed

lemma chain_cells:
  assumes "chain h (map fst ps @ [e])" "list_all (\<lambda>x. get_val h (fst x) = Some (snd x)) ps"
  shows "cells h (hd (map fst ps @ [e])) (length ps) = Some ps"
  using assms
proof (induction ps)
  case Nil
  then show ?case by simp
next
  case (Cons p ps)
  obtain a v where p: "p = (a, v)" by (cases p)
  have l: "link h a (hd (map fst ps @ [e]))"
    using Cons.prems(1) by (cases ps) (auto simp: p)
  have ch: "chain h (map fst ps @ [e])"
    using Cons.prems(1) by (cases ps) (auto simp: p)
  obtain nd where nd: "h a = Some nd" "next nd = hd (map fst ps @ [e])"
    using l by (auto simp: link_def get_next_Some_iff)
  have "val nd = Some v" using Cons.prems(2) nd by (simp add: p get_val_def)
  moreover have "cells h (hd (map fst ps @ [e])) (length ps) = Some ps"
    using Cons.IH[OF ch] Cons.prems(2) by simp
  ultimately show ?case using nd by (simp add: p)
qed

lemma ring_cells:
  assumes "ring h s ps"
  shows "cells h (hd (map fst ps @ [s])) (length ps) = Some ps"
proof -
  have "cyc h ([s] @ map fst ps)" using assms by (simp add: ring_def)
  then have "cyc h (map fst ps @ [s])" by (subst cyc_rotate)
  then have "chain h (map fst ps @ [s])" by (simp add: cyc_alt)
  then show ?thesis using assms by (intro chain_cells) (simp_all add: ring_def)
qed

lemma list_inv_ring_of:
  assumes "list_inv st this ps"
  shows "ring_of st this = Some ps"
proof -
  obtain L where L: "lists st this = Some L" "ring (nodes st) (list_s L) ps"
    "list_n L = length ps"
    using assms by (auto simp: list_inv_def split: option.splits)
  show ?thesis
    using L ring_sentinel(1)[OF L(2)] ring_cells[OF L(2)] by (simp add: ring_of_def)
qed

lemma inv_iff: "inv st this \<longleftrightarrow> (\<exists>ps. list_inv st this ps)"
  by (auto simp: inv_def list_inv_ring_of split: option.splits)

lemma list_inv_unique: "list_inv st this ps \<Longrightarrow> list_inv st this qs \<Longrightarrow> ps = qs"
  using list_inv_ring_of by (metis option.inject)

lemma list_invD:
  assumes "list_inv st this ps"
  obtains L where "lists st this = Some L" "ring (nodes st) (list_s L) ps"
    "list_n L = length ps" "this \<noteq> nullptr"
  using assms by (auto simp: list_inv_def split: option.splits)

lemma list_invI:
  "lists st this = Some L \<Longrightarrow> ring (nodes st) (list_s L) ps \<Longrightarrow> list_n L = length ps \<Longrightarrow>
   this \<noteq> nullptr \<Longrightarrow> list_inv st this ps"
  by (simp add: list_inv_def)

lemma valid_iter_iff:
  assumes "list_inv st this ps" "lists st this = Some L" "owner it = this"
  shows "valid_iter st it \<longleftrightarrow> ptr it \<in> set (list_s L # map fst ps)"
  using assms list_inv_ring_of[OF assms(1)] by (simp add: valid_iter_def)

lemma erase_iter_ok:
  assumes inv: "list_inv st this (pre @ (b, v) # post)" and L: "lists st this = Some L"
  defines "pp \<equiv> last (list_s L # map fst pre)" and "pn \<equiv> hd (map fst post @ [list_s L])"
  defines "st' \<equiv> st\<lparr>nodes := (upd_prev (upd_next (nodes st) pp pn) pn pp)(b := None),
                     lists := (lists st)(this \<mapsto> L\<lparr>list_n := list_n L - 1\<rparr>)\<rparr>"
  shows "erase_iter st this \<lparr>owner = this, ptr = b\<rparr> = Some (Inr (\<lparr>owner = this, ptr = pn\<rparr>, st'))"
    and "list_inv st' this (pre @ post)"
proof -
  have r: "ring (nodes st) (list_s L) (pre @ (b, v) # post)"
    and n: "list_n L = length (pre @ (b, v) # post)" and t: "this \<noteq> nullptr"
    using inv L by (auto simp: list_inv_def)
  note E = ring_erase[OF r, folded pp_def pn_def]
  have live: "upd_prev (upd_next (nodes st) pp pn) pn pp b \<noteq> None"
    using get_next_live[OF E(1)] by simp
  show "erase_iter st this \<lparr>owner = this, ptr = b\<rparr> = Some (Inr (\<lparr>owner = this, ptr = pn\<rparr>, st'))"
    using L n E(6,7) erase_node_eff[OF E(2,1,4,5)] delete_node_live[of "upd_prev (upd_next (nodes st) pp pn) pn pp" b, OF live E(6)] E(1)
    by (simp add: erase_iter_def st'_def)
  show "list_inv st' this (pre @ post)"
    using E(8) n t by (simp add: list_inv_def st'_def)
qed

section \<open>Insertion, removal and iterators\<close>

lemma ex_state_inv: "list_inv ex_state 1 [(11, 5), (12, 6), (13, 7)]"
  by (simp add: list_inv_def ex_state_def ex_nodes_def ring_def cyc_def link_def
      get_next_def get_prev_def get_val_def)

lemma ex_single_inv: "list_inv ex_single 1 [(11, 5)]"
  by (simp add: list_inv_def ex_single_def ring_def cyc_def link_def
      get_next_def get_prev_def get_val_def)

lemma insert_iter_ok:
  fixes st :: "'a state" and v :: 'a
  assumes inv: "list_inv st this (pre @ post)" and L: "lists st this = Some L"
    and fresh: "nodes st cur = None" "cur \<noteq> nullptr"
    and pos_def: "pos = hd (map fst post @ [list_s L])"
    and pp_def: "pp = last (list_s L # map fst pre)"
    and h0_def: "h0 = (nodes st)(cur \<mapsto> \<lparr>prev = nullptr, next = nullptr, val = Some v\<rparr>)"
    and st'_def: "st' = st\<lparr>nodes := upd_prev (upd_next (upd_prev (upd_next h0 cur pos) cur pp) pp cur) pos cur,
                     lists := (lists st)(this \<mapsto> L\<lparr>list_n := list_n L + 1\<rparr>)\<rparr>"
  shows "insert_iter st this \<lparr>owner = this, ptr = pos\<rparr> v cur
           = Some (Inr (\<lparr>owner = this, ptr = cur\<rparr>, st'))"
    and "list_inv st' this (pre @ (cur, v) # post)"
proof -
  have r: "ring (nodes st) (list_s L) (pre @ post)"
    and n: "list_n L = length (pre @ post)" and t: "this \<noteq> nullptr"
    using inv L by (auto simp: list_inv_def)
  note I = ring_insert[OF r fresh pos_def pp_def h0_def]
  have posin: "pos \<in> set (list_s L # map fst (pre @ post))"
    unfolding pos_def by (cases post) auto
  have pos0: "pos \<noteq> nullptr" using r posin by (auto simp: ring_def)
  have h0c: "h0 cur \<noteq> None" by (simp add: h0_def)
  have nn: "new_node (nodes st) cur \<lparr>prev = nullptr, next = nullptr, val = Some v\<rparr> = Some h0"
    using fresh by (simp add: new_node_def h0_def)
  show "insert_iter st this \<lparr>owner = this, ptr = pos\<rparr> v cur
           = Some (Inr (\<lparr>owner = this, ptr = cur\<rparr>, st'))"
    using L pos0 nn insert_node_eff[OF h0c I(1,2,3,4)]
    by (simp add: insert_iter_def st'_def)
  show "list_inv st' this (pre @ (cur, v) # post)"
    using I(5) n t by (simp add: list_inv_def st'_def)
qed

lemma ring_node:
  assumes "ring h s (pre @ (b, v) # post)"
  shows "get_next h b = Some (hd (map fst post @ [s]))"
    "get_prev h b = Some (last (s # map fst pre))" "get_val h b = Some v" "h b \<noteq> None"
  using ring_erase(1,2,3)[OF assms] get_next_live[OF ring_erase(1)[OF assms]] by auto

text \<open>
  Claim C7. For every container, incrementing or dereferencing an iterator that denotes the
  end position (the sentinel) fails with \<open>invalid_iterator\<close>, for \<open>iterator\<close> and
  \<open>const_iterator\<close>, prefix and postfix. Decrementing it fails with \<open>invalid_iterator\<close>
  exactly when the container is empty; on a non-empty container the decrement succeeds and
  the iterator then denotes the last data node.
\<close>

theorem end_iterator_operations:
  assumes "list_inv st this ps" and "end_it st this = Some e"
  shows "iter_pre_inc st e = Some (Inl invalid_iterator) \<and>
         iter_post_inc st e = Some (Inl invalid_iterator) \<and>
         iter_deref st e = Some (Inl invalid_iterator) \<and>
         iter_arrow st e = Some (Inl invalid_iterator) \<and>
         citer_pre_inc st e = Some (Inl invalid_iterator) \<and>
         citer_post_inc st e = Some (Inl invalid_iterator) \<and>
         citer_deref st e = Some (Inl invalid_iterator) \<and>
         (iter_pre_dec st e = Some (Inl invalid_iterator)) = (ps = []) \<and>
         (iter_post_dec st e = Some (Inl invalid_iterator)) = (ps = []) \<and>
         (citer_pre_dec st e = Some (Inl invalid_iterator)) = (ps = []) \<and>
         (citer_post_dec st e = Some (Inl invalid_iterator)) = (ps = []) \<and>
         (ps \<noteq> [] \<longrightarrow>
            iter_pre_dec st e = Some (Inr \<lparr>owner = this, ptr = fst (last ps)\<rparr>) \<and>
            iter_post_dec st e = Some (Inr (e, \<lparr>owner = this, ptr = fst (last ps)\<rparr>)) \<and>
            citer_pre_dec st e = Some (Inr \<lparr>owner = this, ptr = fst (last ps)\<rparr>) \<and>
            citer_post_dec st e = Some (Inr (e, \<lparr>owner = this, ptr = fst (last ps)\<rparr>)))"
proof -
  obtain L where L: "lists st this = Some L" "ring (nodes st) (list_s L) ps"
    "list_n L = length ps" "this \<noteq> nullptr"
    using assms(1) by (rule list_invD)
  have e: "e = \<lparr>owner = this, ptr = list_s L\<rparr>" using assms(2) L(1) by (simp add: end_it_def)
  have s0: "list_s L \<noteq> nullptr" using L(2) by (simp add: ring_def)
  have pv: "get_prev (nodes st) (list_s L) = Some (last (list_s L # map fst ps))"
    using ring_sentinel(2)[OF L(2)] .
  have lst: "ps \<noteq> [] \<Longrightarrow> last (list_s L # map fst ps) = fst (last ps)"
    by (simp add: last_map)
  show ?thesis
    using L(1,3,4) s0 pv lst
    by (simp add: e iter_pre_inc_def iter_post_inc_def iter_deref_def iter_arrow_def
        citer_pre_inc_def citer_post_inc_def citer_deref_def iter_pre_dec_def
        iter_post_dec_def citer_pre_dec_def citer_post_dec_def)
qed

theorem end_iterator_operations_witness:
  "list_inv ex_state 1 [(11, 5), (12, 6), (13, 7)] \<and>
   end_it ex_state 1 = Some \<lparr>owner = 1, ptr = 10\<rparr> \<and>
   iter_pre_inc ex_state \<lparr>owner = 1, ptr = 10\<rparr> = Some (Inl invalid_iterator) \<and>
   iter_deref ex_state \<lparr>owner = 1, ptr = 10\<rparr> = Some (Inl invalid_iterator) \<and>
   iter_pre_dec ex_state \<lparr>owner = 1, ptr = 10\<rparr> = Some (Inr \<lparr>owner = 1, ptr = 13\<rparr>)"
proof -
  have e: "end_it ex_state 1 = Some \<lparr>owner = 1, ptr = 10\<rparr>"
    by (simp add: end_it_def ex_state_def)
  show ?thesis
    using end_iterator_operations[OF ex_state_inv e] ex_state_inv e by simp
qed

text \<open>
  Claim C10. For every non-empty container, prefix and postfix decrement of an iterator or
  const_iterator that denotes the first data node raise no error and move it to the
  sentinel, where it is equal to the end iterator.
\<close>

theorem decrement_at_begin:
  assumes "list_inv st this ps" and "ps \<noteq> []"
    and "begin_it st this = Some b" and "end_it st this = Some e"
  shows "ptr b = fst (hd ps) \<and> ptr b \<noteq> ptr e \<and>
         iter_pre_dec st b = Some (Inr e) \<and> iter_post_dec st b = Some (Inr (b, e)) \<and>
         citer_pre_dec st b = Some (Inr e) \<and> citer_post_dec st b = Some (Inr (b, e)) \<and>
         iter_eq e e"
proof -
  obtain L where L: "lists st this = Some L" "ring (nodes st) (list_s L) ps"
    "list_n L = length ps" "this \<noteq> nullptr"
    using assms(1) by (rule list_invD)
  obtain a v post where ps: "ps = (a, v) # post" using assms(2) by (cases ps) auto
  have e: "e = \<lparr>owner = this, ptr = list_s L\<rparr>" using assms(4) L(1) by (simp add: end_it_def)
  have b: "b = \<lparr>owner = this, ptr = a\<rparr>"
    using assms(3) L(1) ring_sentinel(1)[OF L(2)] by (auto simp: begin_it_def ps)
  have r: "ring (nodes st) (list_s L) ([] @ (a, v) # post)" using L(2) ps by simp
  have a: "a \<noteq> nullptr" "a \<noteq> list_s L" using L(2) by (auto simp: ring_def ps)
  have pv: "get_prev (nodes st) a = Some (list_s L)" using ring_node(2)[OF r] by simp
  show ?thesis
    using L(1,4) a pv
    by (simp add: e b ps iter_pre_dec_def iter_post_dec_def citer_pre_dec_def
        citer_post_dec_def iter_eq_def)
qed

theorem decrement_at_begin_witness:
  "list_inv ex_state 1 [(11, 5), (12, 6), (13, 7)] \<and>
   begin_it ex_state 1 = Some \<lparr>owner = 1, ptr = 11\<rparr> \<and>
   end_it ex_state 1 = Some \<lparr>owner = 1, ptr = 10\<rparr> \<and>
   iter_pre_dec ex_state \<lparr>owner = 1, ptr = 11\<rparr> = Some (Inr \<lparr>owner = 1, ptr = 10\<rparr>) \<and>
   iter_post_dec ex_state \<lparr>owner = 1, ptr = 11\<rparr>
     = Some (Inr (\<lparr>owner = 1, ptr = 11\<rparr>, \<lparr>owner = 1, ptr = 10\<rparr>))"
proof -
  have e: "end_it ex_state 1 = Some \<lparr>owner = 1, ptr = 10\<rparr>"
    by (simp add: end_it_def ex_state_def)
  have b: "begin_it ex_state 1 = Some \<lparr>owner = 1, ptr = 11\<rparr>"
    by (simp add: begin_it_def ex_state_def ex_nodes_def get_next_def)
  have ne: "[(11, 5), (12, 6), (13, 7 :: nat)] \<noteq> ([] :: (nat \<times> nat) list)" by simp
  show ?thesis
    using decrement_at_begin[OF ex_state_inv ne b e] ex_state_inv e b by simp
qed


lemma iter_deref_obs:
  "iter_deref st it =
     (if owner it = nullptr \<or> ptr it = nullptr then Some (Inl invalid_iterator)
      else case lists st (owner it) of
        None \<Rightarrow> None
      | Some L \<Rightarrow>
          if ptr it = list_s L then Some (Inl invalid_iterator)
          else if nodes st (ptr it) = None then None
          else (case get_val (nodes st) (ptr it) of
                  None \<Rightarrow> Some (Inl invalid_iterator)
                | Some v \<Rightarrow> Some (Inr v)))"
  by (auto simp: iter_deref_def get_val_def split: option.splits)

text \<open>
  Claim C5. \<open>erase(pos)\<close>: on an empty container it fails with \<open>container_is_empty\<close>
  whatever \<open>pos\<close> is (the check comes first); otherwise, when \<open>pos\<close> is the end position
  or belongs to another container, it fails with \<open>invalid_iterator\<close>; otherwise, for
  \<open>pos\<close> at a data node of the ring, it unlinks and destroys that node, decrements the
  count by one and returns an iterator to the node that followed it.
\<close>

theorem erase_contract:
  assumes "list_inv st this ps" and "lists st this = Some L"
  shows "(ps = [] \<longrightarrow> erase_iter st this pos = Some (Inl container_is_empty)) \<and>
         (ps \<noteq> [] \<and> (owner pos \<noteq> this \<or> ptr pos = nullptr \<or> ptr pos = list_s L) \<longrightarrow>
            erase_iter st this pos = Some (Inl invalid_iterator)) \<and>
         (\<forall>pre b v post. ps = pre @ (b, v) # post \<and> pos = \<lparr>owner = this, ptr = b\<rparr> \<longrightarrow>
            (\<exists>st' L'. erase_iter st this pos
                 = Some (Inr (\<lparr>owner = this, ptr = hd (map fst post @ [list_s L])\<rparr>, st')) \<and>
               get_next (nodes st) b = Some (hd (map fst post @ [list_s L])) \<and>
               list_inv st' this (pre @ post) \<and> nodes st' b = None \<and>
               lists st' this = Some L' \<and> list_s L' = list_s L \<and>
               list_n L = Suc (list_n L')))"
proof (intro conjI allI impI)
  have n: "list_n L = length ps" using assms by (auto simp: list_inv_def)
  show "erase_iter st this pos = Some (Inl container_is_empty)" if "ps = []"
    using that n assms(2) by (simp add: erase_iter_def)
  show "erase_iter st this pos = Some (Inl invalid_iterator)"
    if "ps \<noteq> [] \<and> (owner pos \<noteq> this \<or> ptr pos = nullptr \<or> ptr pos = list_s L)"
    using that n assms(2) by (auto simp: erase_iter_def)
  fix pre b v post
  assume a: "ps = pre @ (b, v) # post \<and> pos = \<lparr>owner = this, ptr = b\<rparr>"
  have i: "list_inv st this (pre @ (b, v) # post)" using assms(1) a by simp
  have r: "ring (nodes st) (list_s L) (pre @ (b, v) # post)"
    using i assms(2) by (simp add: list_inv_def)
  show "\<exists>st' L'. erase_iter st this pos
                 = Some (Inr (\<lparr>owner = this, ptr = hd (map fst post @ [list_s L])\<rparr>, st')) \<and>
               get_next (nodes st) b = Some (hd (map fst post @ [list_s L])) \<and>
               list_inv st' this (pre @ post) \<and> nodes st' b = None \<and>
               lists st' this = Some L' \<and> list_s L' = list_s L \<and>
               list_n L = Suc (list_n L')"
    using erase_iter_ok[OF i assms(2)] ring_node(1)[OF r] n a
    by (intro exI conjI) (assumption | simp)+
qed

theorem erase_contract_witness:
  "list_inv ex_state 1 [(11, 5), (12, 6), (13, 7)] \<and>
   lists ex_state 1 = Some \<lparr>list_s = 10, list_n = 3\<rparr> \<and>
   erase_iter ex_state 1 \<lparr>owner = 1, ptr = 10\<rparr> = Some (Inl invalid_iterator) \<and>
   erase_iter ex_state 1 \<lparr>owner = 2, ptr = 12\<rparr> = Some (Inl invalid_iterator) \<and>
   (\<exists>st'. erase_iter ex_state 1 \<lparr>owner = 1, ptr = 12\<rparr>
            = Some (Inr (\<lparr>owner = 1, ptr = 13\<rparr>, st')) \<and>
          list_inv st' 1 [(11, 5), (13, 7)] \<and> nodes st' 12 = None)"
proof -
  have L: "lists ex_state 1 = Some \<lparr>list_s = 10, list_n = 3\<rparr>" by (simp add: ex_state_def)
  have split: "[(11, 5), (12, 6), (13, 7)] = [(11, 5)] @ (12, 6) # [(13, 7 :: nat)]" by simp
  have t1: "erase_iter ex_state 1 \<lparr>owner = 1, ptr = 10\<rparr> = Some (Inl invalid_iterator)"
    using erase_contract[OF ex_state_inv L, of "\<lparr>owner = 1, ptr = 10\<rparr>"] by simp
  have t2: "erase_iter ex_state 1 \<lparr>owner = 2, ptr = 12\<rparr> = Some (Inl invalid_iterator)"
    using erase_contract[OF ex_state_inv L, of "\<lparr>owner = 2, ptr = 12\<rparr>"] by simp
  have "\<exists>st' L'. erase_iter ex_state 1 \<lparr>owner = 1, ptr = 12\<rparr>
            = Some (Inr (\<lparr>owner = 1, ptr = hd (map fst [(13, 7 :: nat)] @ [list_s \<lparr>list_s = 10, list_n = 3\<rparr>])\<rparr>, st')) \<and>
          get_next (nodes ex_state) 12 = Some (hd (map fst [(13, 7 :: nat)] @ [list_s \<lparr>list_s = 10, list_n = 3\<rparr>])) \<and>
          list_inv st' 1 ([(11, 5)] @ [(13, 7)]) \<and> nodes st' 12 = None \<and>
          lists st' 1 = Some L' \<and> list_s L' = list_s \<lparr>list_s = 10, list_n = 3\<rparr> \<and>
          list_n \<lparr>list_s = 10, list_n = 3\<rparr> = Suc (list_n L')"
    using erase_contract[OF ex_state_inv L, of "\<lparr>owner = 1, ptr = 12\<rparr>"] split by blast
  then have t3: "\<exists>st'. erase_iter ex_state 1 \<lparr>owner = 1, ptr = 12\<rparr>
            = Some (Inr (\<lparr>owner = 1, ptr = 13\<rparr>, st')) \<and>
          list_inv st' 1 [(11, 5), (13, 7)] \<and> nodes st' 12 = None" by auto
  show ?thesis using ex_state_inv L t1 t2 t3 by blast
qed

text \<open>
  Claim C1. In a container holding the consecutive data nodes \<open>A\<close>, \<open>B\<close>, \<open>C\<close>, erasing
  at \<open>B\<close> invalidates exactly the iterators that denoted \<open>B\<close>: an iterator of the
  container is valid afterwards iff it was valid before and does not denote \<open>B\<close>; every
  other node keeps its value, so that dereferencing such an iterator gives what it gave
  before; no node other than \<open>A\<close>, \<open>B\<close>, \<open>C\<close> and no other container is touched; and
  incrementing an iterator at \<open>A\<close> now yields \<open>C\<close>.
\<close>

theorem erase_iterator_stability:
  assumes "list_inv st this (pre @ [(A, va), (B, vb), (C, vc)] @ post)"
  shows "\<exists>it' st'. erase_iter st this \<lparr>owner = this, ptr = B\<rparr> = Some (Inr (it', st')) \<and>
           list_inv st' this (pre @ [(A, va), (C, vc)] @ post) \<and>
           (\<forall>it. owner it = this \<longrightarrow> valid_iter st' it = (valid_iter st it \<and> ptr it \<noteq> B)) \<and>
           (\<forall>a. a \<noteq> B \<longrightarrow> get_val (nodes st') a = get_val (nodes st) a) \<and>
           (\<forall>it. owner it = this \<and> ptr it \<noteq> B \<longrightarrow> iter_deref st' it = iter_deref st it) \<and>
           (\<forall>x. x \<notin> {A, B, C} \<longrightarrow> nodes st' x = nodes st x) \<and>
           (\<forall>c. c \<noteq> this \<longrightarrow> lists st' c = lists st c) \<and>
           iter_pre_inc st' \<lparr>owner = this, ptr = A\<rparr> = Some (Inr \<lparr>owner = this, ptr = C\<rparr>) \<and>
           iter_post_inc st' \<lparr>owner = this, ptr = A\<rparr>
             = Some (Inr (\<lparr>owner = this, ptr = A\<rparr>, \<lparr>owner = this, ptr = C\<rparr>)) \<and>
           citer_pre_inc st' \<lparr>owner = this, ptr = A\<rparr> = Some (Inr \<lparr>owner = this, ptr = C\<rparr>) \<and>
           citer_post_inc st' \<lparr>owner = this, ptr = A\<rparr>
             = Some (Inr (\<lparr>owner = this, ptr = A\<rparr>, \<lparr>owner = this, ptr = C\<rparr>))"
proof -
  obtain L where L: "lists st this = Some L"
    "ring (nodes st) (list_s L) (pre @ [(A, va), (B, vb), (C, vc)] @ post)"
    "this \<noteq> nullptr"
    using assms by (rule list_invD)
  let ?pre = "pre @ [(A, va)]" and ?post = "(C, vc) # post"
  have i: "list_inv st this (?pre @ (B, vb) # ?post)" using assms by simp
  define st' where "st' = st\<lparr>nodes := (upd_prev (upd_next (nodes st) A C) C A)(B := None),
                     lists := (lists st)(this \<mapsto> L\<lparr>list_n := list_n L - 1\<rparr>)\<rparr>"
  have e: "erase_iter st this \<lparr>owner = this, ptr = B\<rparr>
             = Some (Inr (\<lparr>owner = this, ptr = C\<rparr>, st'))"
    and i': "list_inv st' this (?pre @ ?post)"
    using erase_iter_ok[OF i L(1)] by (simp_all add: st'_def)
  have L': "lists st' this = Some (L\<lparr>list_n := list_n L - 1\<rparr>)" by (simp add: st'_def)
  have d: "distinct (list_s L # map fst (pre @ [(A, va), (B, vb), (C, vc)] @ post))"
    and z: "nullptr \<notin> set (list_s L # map fst (pre @ [(A, va), (B, vb), (C, vc)] @ post))"
    using L(2) by (auto simp: ring_def)
  have v: "valid_iter st' it = (valid_iter st it \<and> ptr it \<noteq> B)" if "owner it = this" for it
    using valid_iter_iff[OF i' L' that] valid_iter_iff[OF i L(1) that] d by auto
  have gv: "get_val (nodes st') a = get_val (nodes st) a" if "a \<noteq> B" for a
    using that by (simp add: st'_def)
  have lv: "(nodes st' a = None) = (nodes st a = None)" if "a \<noteq> B" for a
    using that by (simp add: st'_def)
  have dr: "iter_deref st' it = iter_deref st it" if "owner it = this \<and> ptr it \<noteq> B" for it
    using that gv[of "ptr it"] lv[of "ptr it"] L(1) L' by (simp add: iter_deref_obs)
  have fr: "nodes st' x = nodes st x" if "x \<notin> {A, B, C}" for x
    using that by (simp add: st'_def upd_prev_other upd_next_other)
  have r': "ring (nodes st') (list_s L) (pre @ (A, va) # ((C, vc) # post))"
    using i' L' by (simp add: list_inv_def)
  have nx: "get_next (nodes st') A = Some C" using ring_node(1)[OF r'] by simp
  have A: "A \<noteq> nullptr" "A \<noteq> list_s L" using d z by auto
  have inc: "iter_pre_inc st' \<lparr>owner = this, ptr = A\<rparr> = Some (Inr \<lparr>owner = this, ptr = C\<rparr>)"
    "iter_post_inc st' \<lparr>owner = this, ptr = A\<rparr>
             = Some (Inr (\<lparr>owner = this, ptr = A\<rparr>, \<lparr>owner = this, ptr = C\<rparr>))"
    "citer_pre_inc st' \<lparr>owner = this, ptr = A\<rparr> = Some (Inr \<lparr>owner = this, ptr = C\<rparr>)"
    "citer_post_inc st' \<lparr>owner = this, ptr = A\<rparr>
             = Some (Inr (\<lparr>owner = this, ptr = A\<rparr>, \<lparr>owner = this, ptr = C\<rparr>))"
    using L' L(3) A nx
    by (simp_all add: iter_pre_inc_def iter_post_inc_def citer_pre_inc_def citer_post_inc_def)
  have oth: "lists st' c = lists st c" if "c \<noteq> this" for c using that by (simp add: st'_def)
  show ?thesis
    using e i' v gv dr fr oth inc by (intro exI conjI) (assumption | simp)+
qed

theorem erase_iterator_stability_witness:
  "list_inv ex_state 1 ([] @ [(11, 5), (12, 6), (13, 7)] @ []) \<and>
   (\<exists>it' st'. erase_iter ex_state 1 \<lparr>owner = 1, ptr = 12\<rparr> = Some (Inr (it', st')) \<and>
      list_inv st' 1 [(11, 5), (13, 7)] \<and>
      valid_iter st' \<lparr>owner = 1, ptr = 11\<rparr> \<and> valid_iter st' \<lparr>owner = 1, ptr = 13\<rparr> \<and>
      valid_iter st' \<lparr>owner = 1, ptr = 10\<rparr> \<and> \<not> valid_iter st' \<lparr>owner = 1, ptr = 12\<rparr> \<and>
      iter_pre_inc st' \<lparr>owner = 1, ptr = 11\<rparr> = Some (Inr \<lparr>owner = 1, ptr = 13\<rparr>))"
proof -
  have i: "list_inv ex_state 1 ([] @ [(11, 5), (12, 6), (13, 7)] @ [])"
    using ex_state_inv by simp
  have L: "lists ex_state 1 = Some \<lparr>list_s = 10, list_n = 3\<rparr>" by (simp add: ex_state_def)
  have v: "valid_iter ex_state \<lparr>owner = 1, ptr = 11\<rparr>" "valid_iter ex_state \<lparr>owner = 1, ptr = 13\<rparr>"
    "valid_iter ex_state \<lparr>owner = 1, ptr = 10\<rparr>"
    using valid_iter_iff[OF ex_state_inv L] by simp_all
  from erase_iterator_stability[OF i] obtain it' st' where
    *: "erase_iter ex_state 1 \<lparr>owner = 1, ptr = 12\<rparr> = Some (Inr (it', st'))"
       "list_inv st' 1 ([] @ [(11, 5), (13, 7)] @ [])"
       "\<forall>it. owner it = 1 \<longrightarrow> valid_iter st' it = (valid_iter ex_state it \<and> ptr it \<noteq> 12)"
       "iter_pre_inc st' \<lparr>owner = 1, ptr = 11\<rparr> = Some (Inr \<lparr>owner = 1, ptr = 13\<rparr>)"
    by blast
  show ?thesis using i * v by (intro conjI exI[of _ it'] exI[of _ st']) simp_all
qed

text \<open>
  Claim C6, as stated: an iterator of this container that denotes an already removed node
  is rejected by \<open>insert\<close> and \<open>erase\<close> with \<open>invalid_iterator\<close>. It fails: the
  iterator at node 11 of \<open>ex_single\<close> is valid, \<open>pop_back\<close> removes that node, and
  then \<open>erase\<close> reports \<open>container_is_empty\<close>, while \<open>insert\<close> passes its guard and
  goes on to read the dead node.
\<close>

theorem stale_iterator_counterexample:
  "valid_iter ex_single \<lparr>owner = 1, ptr = 11\<rparr> \<and>
   pop_back ex_single 1 = Some (Inr ex_popped) \<and>
   nodes ex_popped 11 = None \<and>
   erase_iter ex_popped 1 \<lparr>owner = 1, ptr = 11\<rparr> = Some (Inl container_is_empty) \<and>
   insert_iter ex_popped 1 \<lparr>owner = 1, ptr = 11\<rparr> 4 12 \<noteq> Some (Inl invalid_iterator)"
  by (simp add: valid_iter_def ring_of_def pop_back_def ex_single_def ex_popped_def erase_iter_def
      insert_iter_def get_prev_def get_next_def erase_node_def set_next_def set_prev_def
      delete_node_def new_node_def insert_node_def fun_upd_twist)

text \<open>
  Claim C6, amended. The guards of \<open>insert\<close> and \<open>erase\<close> look at the owner and at the
  node pointer only: \<open>insert\<close> raises \<open>invalid_iterator\<close> exactly when the owner is not
  this container or the node pointer is null, and \<open>erase\<close> exactly when the container is
  not empty and the owner is not this container, the node pointer is null or it is the
  sentinel. Whether the denoted node is still alive is not checked.
\<close>

theorem iterator_guards:
  assumes "lists st this = Some L"
  shows "(insert_iter st this pos v cur = Some (Inl invalid_iterator))
           = (owner pos \<noteq> this \<or> ptr pos = nullptr) \<and>
         (erase_iter st this pos = Some (Inl invalid_iterator))
           = (list_n L \<noteq> 0 \<and> (owner pos \<noteq> this \<or> ptr pos = nullptr \<or> ptr pos = list_s L))"
  using assms
  by (auto simp: insert_iter_def erase_iter_def split: bind_splits)

theorem iterator_guards_witness:
  "lists ex_state 1 = Some \<lparr>list_s = 10, list_n = 3\<rparr> \<and>
   insert_iter ex_state 1 \<lparr>owner = 2, ptr = 11\<rparr> 4 14 = Some (Inl invalid_iterator) \<and>
   erase_iter ex_state 1 \<lparr>owner = 1, ptr = 10\<rparr> = Some (Inl invalid_iterator) \<and>
   erase_iter ex_state 1 \<lparr>owner = 1, ptr = 99\<rparr> \<noteq> Some (Inl invalid_iterator)"
proof -
  have L: "lists ex_state 1 = Some \<lparr>list_s = 10, list_n = 3\<rparr>" by (simp add: ex_state_def)
  show ?thesis
    using iterator_guards[OF L, of "\<lparr>owner = 2, ptr = 11\<rparr>" 4 14]
      iterator_guards[OF L, of "\<lparr>owner = 1, ptr = 10\<rparr>" 4 14]
      iterator_guards[OF L, of "\<lparr>owner = 1, ptr = 99\<rparr>" 4 14] L
    by simp
qed

section \<open>\<open>reverse\<close>\<close>

lemma swap_on_obs [simp]:
  "get_next (swap_on C h) x = (if x \<in> C then get_prev h x else get_next h x)"
  "get_prev (swap_on C h) x = (if x \<in> C then get_next h x else get_prev h x)"
  "get_val (swap_on C h) x = get_val h x"
  "(swap_on C h x = None) = (h x = None)"
  by (cases "h x"; simp add: swap_on_def swap_links_def get_next_def get_prev_def get_val_def)+

lemma swap_on_twice: "swap_on C (swap_on C h) = h"
proof
  fix a show "swap_on C (swap_on C h) a = h a"
    by (cases "h a") (auto simp: swap_on_def swap_links_def)
qed

lemma swap_on_step:
  assumes "h z = Some nd" "z \<notin> C"
  shows "swap_on C (h(z \<mapsto> swap_links nd)) = swap_on (insert z C) h"
proof
  fix a show "swap_on C (h(z \<mapsto> swap_links nd)) a = swap_on (insert z C) h a"
    using assms by (auto simp: swap_on_def)
qed

lemma nchain_frame:
  assumes "nchain h c" and "\<And>x. x \<in> set (butlast c) \<Longrightarrow> get_next k x = get_next h x"
  shows "nchain k c"
  using assms
proof (induction h c rule: nchain.induct)
  case (1 h a b c)
  then show ?case by auto
qed auto

lemma chain_nchain: "chain h c \<Longrightarrow> nchain h c"
  by (induction h c rule: chain.induct) (auto simp: link_def)

lemma reverse_body:
  assumes "h z = Some nd"
  shows "do { t \<leftarrow> get_next h z; pv \<leftarrow> get_prev h z; h1 \<leftarrow> set_next h z pv;
              h2 \<leftarrow> set_prev h1 z t; f t h2 }
         = f (next nd) (h(z \<mapsto> swap_links nd))"
  using assms
  by (simp add: get_next_def get_prev_def set_next_def set_prev_def swap_links_def)

lemma reverse_loop_correct:
  assumes "nchain h (z # zs @ [s])" "distinct (z # zs)" "s \<notin> set zs" "h z \<noteq> None"
  shows "reverse_loop h s z = Some (swap_on (set (z # zs)) h)"
  using assms
proof (induction zs arbitrary: z h)
  case Nil
  obtain nd where nd: "h z = Some nd" using Nil.prems(4) by auto
  have t: "next nd = s" using Nil.prems(1) nd by (simp add: get_next_def)
  have "swap_on {z} h = h(z \<mapsto> swap_links nd)"
    using nd by (auto simp: swap_on_def)
  then show ?case
    by (subst reverse_loop.simps) (simp add: reverse_body[where h = h and z = z and nd = nd, OF nd] t)
next
  case (Cons y ys)
  obtain nd where nd: "h z = Some nd" using Cons.prems(4) by auto
  have t: "next nd = y" using Cons.prems(1) nd by (simp add: get_next_def)
  have ys: "y \<noteq> s" using Cons.prems(3) by auto
  let ?h1 = "h(z \<mapsto> swap_links nd)"
  have nc: "nchain ?h1 (y # ys @ [s])"
  proof (rule nchain_frame)
    show "nchain h (y # ys @ [s])" using Cons.prems(1) by simp
    fix x assume "x \<in> set (butlast (y # ys @ [s]))"
    then have "x \<in> set (y # ys)" by (simp add: butlast_append)
    then have "x \<noteq> z" using Cons.prems(2) by auto
    then show "get_next ?h1 x = get_next h x" by simp
  qed
  have "h y \<noteq> None" using Cons.prems(1) by (cases ys) (auto simp: get_next_def)
  then have ly: "?h1 y \<noteq> None" by simp
  have IH: "reverse_loop ?h1 s y = Some (swap_on (set (y # ys)) ?h1)"
  proof (rule Cons.IH[OF nc _ _ ly])
    show "distinct (y # ys)" using Cons.prems(2) by simp
    show "s \<notin> set ys" using Cons.prems(3) by simp
  qed
  have "swap_on (set (y # ys)) ?h1 = swap_on (set (z # y # ys)) h"
    using swap_on_step[of h z nd "set (y # ys)", OF nd] Cons.prems(2) by simp
  then show ?case
    by (subst reverse_loop.simps) (simp add: reverse_body[where h = h and z = z and nd = nd, OF nd] t ys IH)
qed


lemma link_swap:
  assumes "link h a b" "a \<in> C" "b \<in> C"
  shows "link (swap_on C h) b a"
  using assms by (simp add: link_def)

lemma chain_swap:
  assumes "chain h c" "set c \<subseteq> C"
  shows "chain (swap_on C h) (rev c)"
  using assms
proof (induction h c rule: chain.induct)
  case (3 h a b c)
  have "chain (swap_on C h) (rev (b # c))" using 3 by simp
  moreover have "link (swap_on C h) b a" using 3 by (intro link_swap) auto
  moreover have "swap_on C h a \<noteq> None" using 3 by (auto dest: link_live)
  ultimately show ?case
    using chain_append[of "swap_on C h" "rev (b # c)" "[a]"] by simp
qed auto

lemma cyc_swap:
  assumes "cyc h c" "set c \<subseteq> C"
  shows "cyc (swap_on C h) (rev c)"
proof -
  have ne: "c \<noteq> []" and ch: "chain h c" and l: "link h (last c) (hd c)"
    using assms(1) by (auto simp: cyc_alt)
  have "link (swap_on C h) (hd c) (last c)"
    using l assms(2) ne by (intro link_swap) auto
  then show ?thesis
    using chain_swap[OF ch assms(2)] ne by (simp add: cyc_alt hd_rev last_rev)
qed

lemma ring_reverse:
  assumes "ring h s ps"
  shows "ring (swap_on (set (s # map fst ps)) h) s (rev ps)"
proof -
  let ?C = "set (s # map fst ps)" and ?k = "swap_on (set (s # map fst ps)) h"
  have "cyc ?k (rev (s # map fst ps))"
    using assms by (intro cyc_swap) (auto simp: ring_def)
  then have "cyc ?k (rev (map fst ps) @ [s])" by simp
  then have "cyc ?k ([s] @ rev (map fst ps))" by (subst cyc_rotate)
  then have "cyc ?k (s # map fst (rev ps))" by (simp add: rev_map)
  moreover have "list_all (\<lambda>x. get_val ?k (fst x) = Some (snd x)) (rev ps)"
    using assms by (simp add: ring_def list_all_iff)
  moreover have "distinct (map fst (rev ps))"
    using assms by (simp add: ring_def rev_map[symmetric])
  ultimately show ?thesis using assms by (simp add: ring_def)
qed

lemma reverse_ok:
  assumes "list_inv st this ps" "lists st this = Some L"
  shows "reverse st this = Some (st\<lparr>nodes := swap_on (set (list_s L # map fst ps)) (nodes st)\<rparr>)"
    and "list_inv (st\<lparr>nodes := swap_on (set (list_s L # map fst ps)) (nodes st)\<rparr>) this (rev ps)"
proof -
  have r: "ring (nodes st) (list_s L) ps" and n: "list_n L = length ps" and t: "this \<noteq> nullptr"
    using assms by (auto simp: list_inv_def)
  have c: "cyc (nodes st) ([list_s L] @ map fst ps)" using r by (simp add: ring_def)
  then have "cyc (nodes st) (map fst ps @ [list_s L])" by (subst cyc_rotate)
  then have "chain (nodes st) (list_s L # map fst ps @ [list_s L])"
    using c by (cases ps) (auto simp: cyc_alt chain_append)
  then have nc: "nchain (nodes st) (list_s L # map fst ps @ [list_s L])" by (rule chain_nchain)
  have d: "distinct (list_s L # map fst ps)" "list_s L \<notin> set (map fst ps)"
    using r by (auto simp: ring_def)
  have lv: "nodes st (list_s L) \<noteq> None" using ring_live[OF r] by simp
  show "reverse st this = Some (st\<lparr>nodes := swap_on (set (list_s L # map fst ps)) (nodes st)\<rparr>)"
    using assms(2) reverse_loop_correct[OF nc d lv] by (simp add: reverse_def)
  show "list_inv (st\<lparr>nodes := swap_on (set (list_s L # map fst ps)) (nodes st)\<rparr>) this (rev ps)"
    using ring_reverse[OF r] assms(2) n t by (simp add: list_inv_def)
qed

lemma swap_on_small:
  assumes "ring h s ps" "length ps \<le> 1"
  shows "swap_on (set (s # map fst ps)) h = h"
proof
  fix a
  show "swap_on (set (s # map fst ps)) h a = h a"
  proof (cases "a \<in> set (s # map fst ps)")
    case False
    then show ?thesis by (simp add: swap_on_def)
  next
    case True
    have "get_next h a = get_prev h a"
    proof (cases ps)
      case Nil
      then show ?thesis using True ring_sentinel[OF assms(1)] by simp
    next
      case (Cons p qs)
      then have ps: "ps = [] @ (fst p, snd p) # []" using assms(2) by simp
      have r: "ring h s ([] @ (fst p, snd p) # [])" using assms(1) ps by simp
      show ?thesis
        using True ring_sentinel[OF assms(1)] ring_node(1,2)[OF r] ps by auto
    qed
    then show ?thesis
      by (cases "h a") (auto simp: swap_on_def swap_links_def get_next_def get_prev_def)
  qed
qed

text \<open>
  Claim C8. For every container, \<open>reverse()\<close> returns and reverses the forward sequence
  of nodes in place: no node is created or destroyed and every value stays in its node.
  Applied to the result it gives back the original state, and on a container with at most
  one element it changes nothing.
\<close>

theorem reverse_correct:
  assumes "list_inv st this ps"
  shows "\<exists>st'. reverse st this = Some st' \<and> list_inv st' this (rev ps) \<and>
           reverse st' this = Some st \<and>
           (length ps \<le> 1 \<longrightarrow> st' = st) \<and>
           (\<forall>a. get_val (nodes st') a = get_val (nodes st) a \<and>
                (nodes st' a = None) = (nodes st a = None)) \<and>
           lists st' = lists st"
proof -
  obtain L where L: "lists st this = Some L" "ring (nodes st) (list_s L) ps"
    using assms by (rule list_invD)
  let ?C = "set (list_s L # map fst ps)"
  let ?st' = "st\<lparr>nodes := swap_on ?C (nodes st)\<rparr>"
  note R = reverse_ok[OF assms L(1)]
  have L': "lists ?st' this = Some L" using L(1) by simp
  have C': "set (list_s L # map fst (rev ps)) = ?C" by (simp add: rev_map)
  have "reverse ?st' this = Some (?st'\<lparr>nodes := swap_on ?C (nodes ?st')\<rparr>)"
    using reverse_ok(1)[OF R(2) L'] unfolding C' .
  then have twice: "reverse ?st' this = Some st" by (simp add: swap_on_twice)
  have small: "?st' = st" if "length ps \<le> 1"
    using swap_on_small[OF L(2) that] by simp
  show ?thesis
    using R twice small by (intro exI[of _ ?st'] conjI) simp_all
qed

theorem reverse_correct_witness:
  "list_inv ex_state 1 [(11, 5), (12, 6), (13, 7)] \<and>
   (\<exists>st'. reverse ex_state 1 = Some st' \<and> list_inv st' 1 [(13, 7), (12, 6), (11, 5)] \<and>
      reverse st' 1 = Some ex_state)"
  using reverse_correct[OF ex_state_inv] ex_state_inv by auto

section \<open>\<open>unique\<close>\<close>

lemma upd_dom [simp]: "dom (upd_next h a b) = dom h" "dom (upd_prev h a b) = dom h"
  by (auto simp: upd_next_def upd_prev_def dom_def split: option.splits)

lemma ring_erase_full:
  assumes "ring h s (pre @ (b, v) # post)"
  shows "\<exists>h1 h2. erase_node h b = Some h1 \<and> delete_node h1 b = Some h2 \<and>
           ring h2 s (pre @ post) \<and> dom h2 = dom h - {b} \<and>
           (\<forall>x. x \<notin> set (s # map fst (pre @ (b, v) # post)) \<longrightarrow> h2 x = h x) \<and>
           (\<forall>x. x \<noteq> b \<longrightarrow> get_val h2 x = get_val h x)"
proof -
  let ?pp = "last (s # map fst pre)" and ?pn = "hd (map fst post @ [s])"
  let ?h1 = "upd_prev (upd_next h ?pp ?pn) ?pn ?pp"
  note E = ring_erase[OF assms]
  have e: "erase_node h b = Some ?h1" using erase_node_eff[OF E(2,1,4,5)] .
  have lv: "?h1 b \<noteq> None" using get_next_live[OF E(1)] by simp
  have d: "delete_node ?h1 b = Some (?h1(b := None))"
    using delete_node_live[of ?h1 b, OF lv E(6)] .
  have "?pp \<in> set (s # map fst pre)" by (rule last_in_set) simp
  moreover have "set (s # map fst pre) \<subseteq> set (s # map fst (pre @ (b, v) # post))" by auto
  ultimately have ppin: "?pp \<in> set (s # map fst (pre @ (b, v) # post))" by blast
  have pnin: "?pn \<in> set (s # map fst (pre @ (b, v) # post))"
    by (cases post) auto
  have bin: "b \<in> set (s # map fst (pre @ (b, v) # post))" by simp
  have fr: "(?h1(b := None)) x = h x" if "x \<notin> set (s # map fst (pre @ (b, v) # post))" for x
  proof -
    have "x \<noteq> ?pp" "x \<noteq> ?pn" "x \<noteq> b" using that ppin pnin bin by blast+
    then show ?thesis by (simp add: upd_prev_other upd_next_other)
  qed
  show ?thesis
    using e d E(8) fr by (intro exI[of _ ?h1] exI[of _ "?h1(b := None)"] conjI) auto
qed


lemma ring_hd_not_s:
  assumes "ring h s (pre @ (b, v) # post)"
  shows "hd (map fst ((b, v) # post) @ [s]) = b" "b \<noteq> s"
  using assms by (auto simp: ring_def)

lemma unique_inner_correct:
  assumes "ring h s (pre @ (c, cv) # mid @ post)"
    and "\<forall>y \<in> set mid. eq cv (snd y)"
    and "post = [] \<or> \<not> eq cv (snd (hd post))"
    and "n = length (pre @ (c, cv) # mid @ post)"
  shows "\<exists>h'. unique_inner eq h n s c (hd (map fst (mid @ post) @ [s]))
             = Some (h', length (pre @ (c, cv) # post), hd (map fst post @ [s])) \<and>
           ring h' s (pre @ (c, cv) # post) \<and> dom h' = dom h - fst ` set mid \<and>
           (\<forall>x. x \<notin> set (s # map fst (pre @ (c, cv) # mid @ post)) \<longrightarrow> h' x = h x) \<and>
           (\<forall>x. x \<notin> fst ` set mid \<longrightarrow> get_val h' x = get_val h x)"
  using assms
proof (induction mid arbitrary: h n)
  case Nil
  have cvv: "get_val h c = Some cv" using ring_node(3)[OF Nil.prems(1)[simplified]] .
  show ?case
  proof (cases post)
    case Nil
    then show ?thesis using \<open>ring h s (pre @ (c, cv) # [] @ post)\<close> Nil.prems(4)
      by (subst unique_inner.simps) simp
  next
    case (Cons p post')
    obtain d dv where p: "p = (d, dv)" by (cases p)
    have r: "ring h s ((pre @ [(c, cv)]) @ (d, dv) # post')"
      using Nil.prems(1) Cons p by simp
    have "d \<noteq> s" using r by (auto simp: ring_def)
    moreover have "get_val h d = Some dv" using ring_node(3)[OF r] .
    moreover have "\<not> eq cv dv" using Nil.prems(3) Cons p by simp
    ultimately show ?thesis using Nil.prems(1,4) cvv Cons p
      by (subst unique_inner.simps) simp
  qed
next
  case (Cons m mid)
  obtain b bv where m: "m = (b, bv)" by (cases m)
  have r: "ring h s ((pre @ [(c, cv)]) @ (b, bv) # (mid @ post))"
    using Cons.prems(1) m by simp
  have r0: "ring h s (pre @ (c, cv) # ((b, bv) # mid @ post))"
    using Cons.prems(1) m by simp
  have bs: "b \<noteq> s" using r by (auto simp: ring_def)
  have cvv: "get_val h c = Some cv" using ring_node(3)[OF r0] .
  have bvv: "get_val h b = Some bv" using ring_node(3)[OF r] .
  have e: "eq cv bv" using Cons.prems(2) m by simp
  have nx: "get_next h b = Some (hd (map fst (mid @ post) @ [s]))"
    using ring_node(1)[OF r] .
  obtain h1 h2 where E: "erase_node h b = Some h1" "delete_node h1 b = Some h2"
    "ring h2 s ((pre @ [(c, cv)]) @ (mid @ post))" "dom h2 = dom h - {b}"
    "\<forall>x. x \<notin> set (s # map fst ((pre @ [(c, cv)]) @ (b, bv) # (mid @ post))) \<longrightarrow> h2 x = h x"
    "\<forall>x. x \<noteq> b \<longrightarrow> get_val h2 x = get_val h x"
    using ring_erase_full[OF r] by blast
  have r2: "ring h2 s (pre @ (c, cv) # mid @ post)" using E(3) by simp
  have n2: "n - 1 = length (pre @ (c, cv) # mid @ post)" using Cons.prems(4) by simp
  obtain h' where IH:
    "unique_inner eq h2 (n - 1) s c (hd (map fst (mid @ post) @ [s]))
       = Some (h', length (pre @ (c, cv) # post), hd (map fst post @ [s]))"
    "ring h' s (pre @ (c, cv) # post)" "dom h' = dom h2 - fst ` set mid"
    "\<forall>x. x \<notin> set (s # map fst (pre @ (c, cv) # mid @ post)) \<longrightarrow> h' x = h2 x"
    "\<forall>x. x \<notin> fst ` set mid \<longrightarrow> get_val h' x = get_val h2 x"
    using Cons.IH[OF r2 _ Cons.prems(3) n2] Cons.prems(2) by auto
  have u: "unique_inner eq h n s c (hd (map fst ((m # mid) @ post) @ [s]))
       = Some (h', length (pre @ (c, cv) # post), hd (map fst post @ [s]))"
    using bs cvv bvv e nx E(1,2) IH(1)
    by (subst unique_inner.simps) (simp add: m)
  have d: "dom h' = dom h - fst ` set (m # mid)" using IH(3) E(4) by (auto simp: m)
  have f1: "\<forall>x. x \<notin> set (s # map fst (pre @ (c, cv) # (m # mid) @ post)) \<longrightarrow> h' x = h x"
    using IH(4) E(5) by (auto simp: m)
  have f2: "\<forall>x. x \<notin> fst ` set (m # mid) \<longrightarrow> get_val h' x = get_val h x"
    using IH(5) E(6) by (auto simp: m)
  show ?case using u IH(2) d f1 f2 by blast
qed


lemma uniq_subset: "set (uniq eq xs) \<subseteq> set xs"
proof (induction eq xs rule: uniq.induct)
  case (2 eq x xs)
  then show ?case using set_dropWhileD by fastforce
qed simp

lemma length_uniq: "length (uniq eq xs) \<le> length xs"
proof (induction eq xs rule: uniq.induct)
  case (2 eq x xs)
  have "length (dropWhile (\<lambda>y. eq (snd x) (snd y)) xs) \<le> length xs"
    by (rule length_dropWhile_le)
  then show ?case using 2 by simp
qed simp

lemma unique_outer_correct:
  assumes "ring h s (pre @ rest)" and "n = length (pre @ rest)"
  shows "\<exists>h'. unique_outer eq h n s (hd (map fst rest @ [s]))
             = Some (h', length (pre @ uniq eq rest)) \<and>
           ring h' s (pre @ uniq eq rest) \<and>
           (\<forall>a \<in> fst ` set rest. a \<notin> fst ` set (uniq eq rest) \<longrightarrow> h' a = None) \<and>
           (\<forall>x. x \<notin> set (s # map fst (pre @ rest)) \<longrightarrow> h' x = h x)"
  using assms
proof (induction eq rest arbitrary: pre h n rule: uniq.induct)
  case (1 eq)
  then show ?case by (subst unique_outer.simps) simp
next
  case (2 eq x xs)
  obtain c cv where x: "x = (c, cv)" by (cases x)
  let ?P = "\<lambda>y. eq (snd x) (snd y)"
  let ?mid = "takeWhile ?P xs" and ?post = "dropWhile ?P xs"
  have xs: "xs = ?mid @ ?post" by simp
  have r: "ring h s (pre @ (c, cv) # ?mid @ ?post)" using "2.prems"(1) x by simp
  have r0: "ring h s (pre @ (c, cv) # xs)" using "2.prems"(1) x by simp
  have cs: "c \<noteq> s" using r0 by (auto simp: ring_def)
  have nx: "get_next h c = Some (hd (map fst (?mid @ ?post) @ [s]))"
    using ring_node(1)[OF r0] by simp
  have m1: "\<forall>y \<in> set ?mid. eq cv (snd y)" using set_takeWhileD[of _ ?P xs] x by auto
  have m2: "?post = [] \<or> \<not> eq cv (snd (hd ?post))"
    using hd_dropWhile[of ?P xs] x by auto
  have n0: "n = length (pre @ (c, cv) # ?mid @ ?post)"
    using "2.prems"(2) by simp
  obtain h1 where I:
    "unique_inner eq h n s c (hd (map fst (?mid @ ?post) @ [s]))
       = Some (h1, length (pre @ (c, cv) # ?post), hd (map fst ?post @ [s]))"
    "ring h1 s (pre @ (c, cv) # ?post)" "dom h1 = dom h - fst ` set ?mid"
    "\<forall>x. x \<notin> set (s # map fst (pre @ (c, cv) # ?mid @ ?post)) \<longrightarrow> h1 x = h x"
    using unique_inner_correct[where eq = eq, OF r m1 m2 n0]
    by (elim exE conjE) (rule that; assumption)
  have r1: "ring h1 s ((pre @ [x]) @ ?post)" using I(2) x by simp
  have n1: "length (pre @ (c, cv) # ?post) = length ((pre @ [x]) @ ?post)" by simp
  obtain h' where O:
    "unique_outer eq h1 (length (pre @ (c, cv) # ?post)) s (hd (map fst ?post @ [s]))
       = Some (h', length ((pre @ [x]) @ uniq eq ?post))"
    "ring h' s ((pre @ [x]) @ uniq eq ?post)"
    "\<forall>a \<in> fst ` set ?post. a \<notin> fst ` set (uniq eq ?post) \<longrightarrow> h' a = None"
    "\<forall>y. y \<notin> set (s # map fst ((pre @ [x]) @ ?post)) \<longrightarrow> h' y = h1 y"
    using "2.IH"[OF r1 n1]
    by (elim exE conjE) (rule that; assumption)
  have u: "unique_outer eq h n s (hd (map fst (x # xs) @ [s]))
             = Some (h', length (pre @ uniq eq (x # xs)))"
    using cs nx I(1) O(1)
    by (subst unique_outer.simps) (simp add: x)
  have rr: "ring h' s (pre @ uniq eq (x # xs))" using O(2) by simp
  have dd: "distinct (s # map fst (pre @ (c, cv) # ?mid @ ?post))" using r by (simp add: ring_def)
  have sx: "set xs = set ?mid \<union> set ?post" by (metis set_append takeWhile_dropWhile_id)
  have dead: "h' a = None" if a: "a \<in> fst ` set (x # xs)" "a \<notin> fst ` set (uniq eq (x # xs))" for a
  proof -
    have uq: "fst ` set (uniq eq (x # xs)) = insert c (fst ` set (uniq eq ?post))"
      by (simp add: x)
    have ac: "a \<noteq> c" "a \<notin> fst ` set (uniq eq ?post)" using a(2) unfolding uq by blast+
    have "fst ` set (x # xs) = insert c (fst ` set ?mid \<union> fst ` set ?post)"
      unfolding list.set image_insert sx image_Un by (simp add: x)
    then have "a \<in> fst ` set ?mid \<or> a \<in> fst ` set ?post"
      using a(1) ac(1) by blast
    then show ?thesis
    proof
      assume am: "a \<in> fst ` set ?mid"
      then have "a \<notin> dom h - fst ` set ?mid" by blast
      then have "a \<notin> dom h1" unfolding I(3) .
      then have h1a: "h1 a = None" by (simp add: domIff)
      have "a \<notin> set (s # map fst ((pre @ [x]) @ ?post))"
        using ring_live[OF r1, of a] h1a by blast
      then have "h' a = h1 a" using O(4) by blast
      then show ?thesis using h1a by simp
    next
      assume ap: "a \<in> fst ` set ?post"
      show ?thesis by (rule O(3)[rule_format, OF ap ac(2)])
    qed
  qed
  have fr: "h' y = h y" if y: "y \<notin> set (s # map fst (pre @ x # xs))" for y
  proof -
    have "set (s # map fst ((pre @ [x]) @ ?post)) \<subseteq> set (s # map fst (pre @ x # xs))"
      using sx by auto
    then have "y \<notin> set (s # map fst ((pre @ [x]) @ ?post))" using y by blast
    then have "h' y = h1 y" using O(4) by blast
    moreover have "y \<notin> set (s # map fst (pre @ (c, cv) # ?mid @ ?post))"
      using y x by simp
    ultimately show ?thesis using I(4) by simp
  qed
  show ?case
  proof (intro exI[of _ h'] conjI ballI allI impI)
    show "unique_outer eq h n s (hd (map fst (x # xs) @ [s]))
             = Some (h', length (pre @ uniq eq (x # xs)))" by (rule u)
    show "ring h' s (pre @ uniq eq (x # xs))" by (rule rr)
    show "h' a = None" if "a \<in> fst ` set (x # xs)" "a \<notin> fst ` set (uniq eq (x # xs))" for a
      using that by (rule dead)
    show "h' y = h y" if "y \<notin> set (s # map fst (pre @ x # xs))" for y
      using that by (rule fr)
  qed
qed

lemma first_of_runs_Cons:
  "first_of_runs k (x # xs) = x # first_of_runs k (dropWhile (\<lambda>y. k x = k y) xs)"
proof (induction xs)
  case (Cons y r)
  then show ?case by simp
qed simp

lemma uniq_first_of_runs:
  assumes "\<forall>x y. eq x y = (k x = k y)"
  shows "uniq eq xs = first_of_runs (k \<circ> snd) xs"
  using assms
proof (induction eq xs rule: uniq.induct)
  case (2 eq x xs)
  have P: "(\<lambda>y. eq (snd x) (snd y)) = (\<lambda>y. (k \<circ> snd) x = (k \<circ> snd) y)"
    using "2.prems" by auto
  have "uniq eq (x # xs) = x # uniq eq (dropWhile (\<lambda>y. eq (snd x) (snd y)) xs)" by simp
  also have "\<dots> = x # first_of_runs (k \<circ> snd) (dropWhile (\<lambda>y. eq (snd x) (snd y)) xs)"
    using "2.IH"[OF "2.prems"] by (simp add: comp_def)
  also have "\<dots> = first_of_runs (k \<circ> snd) (x # xs)"
    unfolding P by (rule first_of_runs_Cons[symmetric])
  finally show ?case .
qed simp

lemma first_of_runs_remdups_adj: "map k (first_of_runs k xs) = remdups_adj (map k xs)"
  by (induction k xs rule: first_of_runs.induct) auto

lemma first_of_runs_subseq: "subseq (first_of_runs k xs) xs"
proof (induction k xs rule: first_of_runs.induct)
  case (3 k x y r)
  show ?case
  proof (cases "k x = k y")
    case True
    let ?Z = "first_of_runs k (dropWhile (\<lambda>y. k x = k y) r)"
    have Z: "first_of_runs k (x # r) = x # ?Z" by (rule first_of_runs_Cons)
    then have "subseq ?Z r" using 3(1)[OF True] by simp
    then have "subseq ?Z (y # r)" by (rule list_emb_Cons)
    then have "subseq (x # ?Z) (x # y # r)" by simp
    then show ?thesis using True Z by simp
  next
    case False
    then show ?thesis using 3(2) by simp
  qed
qed simp_all


lemma unique_ok:
  assumes "list_inv st this ps" and "lists st this = Some L"
  shows "\<exists>st'. unique eq st this = Some st' \<and> list_inv st' this (uniq eq ps) \<and>
           lists st' this = Some (L\<lparr>list_n := length (uniq eq ps)\<rparr>) \<and>
           (\<forall>c. c \<noteq> this \<longrightarrow> lists st' c = lists st c) \<and>
           (\<forall>a \<in> fst ` set ps. a \<notin> fst ` set (uniq eq ps) \<longrightarrow> nodes st' a = None) \<and>
           (\<forall>x. x \<notin> set (list_s L # map fst ps) \<longrightarrow> nodes st' x = nodes st x)"
proof (cases "list_n L \<le> 1")
  case True
  have n: "list_n L = length ps" using assms by (auto simp: list_inv_def)
  have "uniq eq ps = ps"
  proof (cases ps)
    case (Cons p qs)
    then have "qs = []" using True n by simp
    then show ?thesis using Cons by simp
  qed simp
  moreover have "st\<lparr>lists := (lists st)(this \<mapsto> L)\<rparr> = st" using assms(2) by (simp add: fun_upd_idem)
  moreover have "L\<lparr>list_n := length ps\<rparr> = L" using n by simp
  ultimately show ?thesis
    using True assms by (intro exI[of _ st]) (simp add: unique_def)
next
  case False
  have r: "ring (nodes st) (list_s L) ([] @ ps)" and n: "list_n L = length ([] @ ps)"
    and t: "this \<noteq> nullptr"
    using assms by (auto simp: list_inv_def)
  have nx: "get_next (nodes st) (list_s L) = Some (hd (map fst ps @ [list_s L]))"
    using ring_sentinel(1)[of "nodes st" "list_s L" ps] r by simp
  obtain h' where O:
    "unique_outer eq (nodes st) (list_n L) (list_s L) (hd (map fst ps @ [list_s L]))
       = Some (h', length ([] @ uniq eq ps))"
    "ring h' (list_s L) ([] @ uniq eq ps)"
    "\<forall>a \<in> fst ` set ps. a \<notin> fst ` set (uniq eq ps) \<longrightarrow> h' a = None"
    "\<forall>x. x \<notin> set (list_s L # map fst ([] @ ps)) \<longrightarrow> h' x = nodes st x"
    using unique_outer_correct[where eq = eq, OF r n]
    by (elim exE conjE) (rule that; assumption)
  let ?st' = "st\<lparr>nodes := h', lists := (lists st)(this \<mapsto> L\<lparr>list_n := length (uniq eq ps)\<rparr>)\<rparr>"
  have u: "unique eq st this = Some ?st'"
    using False assms(2) nx O(1) by (simp add: unique_def)
  have i: "list_inv ?st' this (uniq eq ps)" using O(2) t by (simp add: list_inv_def)
  show ?thesis
    using u i O(3,4) by (intro exI[of _ ?st']) simp
qed

text \<open>
  Claim C9. With \<open>==\<close> an equivalence (equality of keys), \<open>unique()\<close> returns and
  leaves in the ring the first node of every maximal run of consecutive equal values, in
  their old order: the keys of the result are \<open>remdups_adj\<close> of the old keys and the
  result is a subsequence of the old sequence. The removed nodes are destroyed and the
  count goes down by their number. Duplicates that are not consecutive stay.
\<close>

theorem unique_correct:
  assumes "list_inv st this ps" and "lists st this = Some L"
    and "\<forall>x y. eq x y = (k x = k y)"
  shows "\<exists>st' L'. unique eq st this = Some st' \<and>
           list_inv st' this (first_of_runs (k \<circ> snd) ps) \<and>
           map (k \<circ> snd) (first_of_runs (k \<circ> snd) ps) = remdups_adj (map (k \<circ> snd) ps) \<and>
           subseq (first_of_runs (k \<circ> snd) ps) ps \<and>
           (\<forall>a \<in> fst ` set ps. a \<notin> fst ` set (first_of_runs (k \<circ> snd) ps)
              \<longrightarrow> nodes st' a = None) \<and>
           lists st' this = Some L' \<and> list_s L' = list_s L \<and>
           list_n L' = list_n L - (length ps - length (first_of_runs (k \<circ> snd) ps))"
proof -
  have e: "uniq eq ps = first_of_runs (k \<circ> snd) ps"
    using uniq_first_of_runs[OF assms(3)] .
  have n: "list_n L = length ps" using assms(1,2) by (auto simp: list_inv_def)
  have le: "length (first_of_runs (k \<circ> snd) ps) \<le> length ps"
    using length_uniq[of eq ps] e by simp
  obtain st' where U: "unique eq st this = Some st'"
    "list_inv st' this (uniq eq ps)"
    "lists st' this = Some (L\<lparr>list_n := length (uniq eq ps)\<rparr>)"
    "\<forall>a \<in> fst ` set ps. a \<notin> fst ` set (uniq eq ps) \<longrightarrow> nodes st' a = None"
    using unique_ok[where eq = eq, OF assms(1,2)]
    by (elim exE conjE) (rule that; assumption)
  show ?thesis
    using U n le first_of_runs_remdups_adj[of "k \<circ> snd" ps] first_of_runs_subseq[of "k \<circ> snd" ps]
    unfolding e
    by (intro exI[of _ st'] exI[of _ "L\<lparr>list_n := length (first_of_runs (k \<circ> snd) ps)\<rparr>"]) simp
qed

lemma ex_runs_inv:
  "list_inv ex_runs 1 [(11, 1), (12, 1), (13, 2), (14, 1), (15, 1), (16, 3), (17, 3)]"
  by (simp add: list_inv_def ex_runs_def ring_def cyc_def link_def
      get_next_def get_prev_def get_val_def)

theorem unique_correct_witness:
  "list_inv ex_runs 1 [(11, 1), (12, 1), (13, 2), (14, 1), (15, 1), (16, 3), (17, 3)] \<and>
   lists ex_runs 1 = Some \<lparr>list_s = 10, list_n = 7\<rparr> \<and>
   (\<forall>x y :: nat. (x = y) = (id x = id y)) \<and>
   (\<exists>st'. unique (=) ex_runs 1 = Some st' \<and>
      list_inv st' 1 [(11, 1), (13, 2), (14, 1), (16, 3)] \<and>
      nodes st' 12 = None \<and> nodes st' 15 = None \<and> nodes st' 17 = None \<and>
      lists st' 1 = Some \<lparr>list_s = 10, list_n = 4\<rparr>)"
proof -
  have L: "lists ex_runs 1 = Some \<lparr>list_s = 10, list_n = 7\<rparr>" by (simp add: ex_runs_def)
  have k: "\<forall>x y :: nat. (x = y) = (id x = id y)" by simp
  have f: "first_of_runs (id \<circ> snd)
             [(11 :: nat, 1 :: nat), (12, 1), (13, 2), (14, 1), (15, 1), (16, 3), (17, 3)]
           = [(11, 1), (13, 2), (14, 1), (16, 3)]" by simp
  from unique_correct[OF ex_runs_inv L k, unfolded f]
  obtain st' L' where U: "unique (=) ex_runs 1 = Some st'"
    "list_inv st' 1 [(11, 1), (13, 2), (14, 1), (16, 3)]"
    "\<forall>a \<in> fst ` set [(11 :: nat, 1 :: nat), (12, 1), (13, 2), (14, 1), (15, 1), (16, 3), (17, 3)].
        a \<notin> fst ` set [(11 :: nat, 1 :: nat), (13, 2), (14, 1), (16, 3)] \<longrightarrow> nodes st' a = None"
    "lists st' 1 = Some L'" "list_s L' = list_s \<lparr>list_s = 10, list_n = 7\<rparr>"
    "list_n L' = list_n \<lparr>list_s = 10, list_n = 7\<rparr>
        - (length [(11 :: nat, 1 :: nat), (12, 1), (13, 2), (14, 1), (15, 1), (16, 3), (17, 3)]
           - length [(11 :: nat, 1 :: nat), (13, 2), (14, 1), (16, 3)])"
    by (elim exE conjE) (rule that; assumption)
  have "L' = \<lparr>list_s = 10, list_n = 4\<rparr>" using U(5,6) by (cases L') simp
  then show ?thesis using ex_runs_inv L U(1,2,3,4) by (intro conjI k exI[of _ st']) simp_all
qed

section \<open>\<open>merge\<close>\<close>

lemma distinct_butlast_last:
  assumes "distinct c" "x \<in> set (butlast c)"
  shows "x \<noteq> last c"
proof -
  have "c \<noteq> []" using assms(2) by auto
  then have "distinct (butlast c @ [last c])" using assms(1) by simp
  then show ?thesis using assms(2) by auto
qed

lemma in_set_tl: "x \<in> set (tl c) \<Longrightarrow> x \<in> set c"
  by (cases c) auto

lemma distinct_tl_hd:
  assumes "distinct c" "x \<in> set (tl c)"
  shows "x \<noteq> hd c"
  using assms by (cases c) auto

lemma cyc_splice:
  assumes cA: "cyc h (a # A)" and cB: "cyc h (B @ R)" and B: "B \<noteq> []" and R: "R \<noteq> []"
    and d: "distinct (a # A @ B @ R)"
    and names: "en = last B" "st = hd B" "pv = last (a # A)" "ol = last R" "b1 = hd R"
    and nx: "\<And>x. get_next k x =
               (if x = en then Some a else if x = pv then Some st
                else if x = ol then Some b1 else get_next h x)"
    and pr: "\<And>x. get_prev k x =
               (if x = a then Some en else if x = st then Some pv
                else if x = b1 then Some ol else get_prev h x)"
    and lv: "\<And>x. (k x = None) = (h x = None)"
  shows "cyc k (B @ a # A)" "cyc k R"
proof -
  have chA: "chain h (a # A)" using cA by (simp add: cyc_alt)
  have chB: "chain h B" and chR: "chain h R"
    using cB by (simp_all add: cyc_alt chain_append)
  have "last (a # A) \<in> set (a # A)" by (rule last_in_set) simp
  then have m: "en \<in> set B" "st \<in> set B" "ol \<in> set R" "b1 \<in> set R" "pv \<in> set (a # A)"
    "a \<in> set (a # A)"
    using B R unfolding names by simp_all
  have dA: "distinct (a # A)" and dB: "distinct B" and dR: "distinct R"
    and AB: "set (a # A) \<inter> set B = {}" and AR: "set (a # A) \<inter> set R = {}"
    and BR: "set B \<inter> set R = {}"
    using d by auto
  have live: "k x \<noteq> None" if "x \<in> set (a # A) \<union> set B \<union> set R" for x
    using that chain_live[OF chA, of x] chain_live[OF chB, of x] chain_live[OF chR, of x] lv[of x]
    by auto
  have kB: "chain k B"
  proof (rule chain_frame[OF chB])
    fix x assume x: "x \<in> set (butlast B)"
    have "x \<in> set B" using x by (rule in_set_butlastD)
    moreover have "x \<noteq> en" unfolding names using dB x by (rule distinct_butlast_last)
    ultimately have "x \<noteq> en" "x \<noteq> pv" "x \<noteq> ol" using m AB BR by blast+
    then show "get_next k x = get_next h x" by (simp only: nx if_False)
  next
    fix x assume x: "x \<in> set (tl B)"
    have "x \<in> set B" using x by (rule in_set_tl)
    moreover have "x \<noteq> st" unfolding names using dB x by (rule distinct_tl_hd)
    ultimately have "x \<noteq> a" "x \<noteq> st" "x \<noteq> b1" using m AB BR by blast+
    then show "get_prev k x = get_prev h x" by (simp only: pr if_False)
  next
    fix x assume "x \<in> set B" then show "k x \<noteq> None" using live by blast
  qed
  have kA: "chain k (a # A)"
  proof (rule chain_frame[OF chA])
    fix x assume x: "x \<in> set (butlast (a # A))"
    have "x \<in> set (a # A)" using x by (rule in_set_butlastD)
    moreover have "x \<noteq> pv" unfolding names using dA x by (rule distinct_butlast_last)
    ultimately have "x \<noteq> en" "x \<noteq> pv" "x \<noteq> ol" using m AB AR by blast+
    then show "get_next k x = get_next h x" by (simp only: nx if_False)
  next
    fix x assume x: "x \<in> set (tl (a # A))"
    have "x \<in> set (a # A)" using x by simp
    moreover have "x \<noteq> a" using dA x by auto
    ultimately have "x \<noteq> a" "x \<noteq> st" "x \<noteq> b1" using m AB AR by blast+
    then show "get_prev k x = get_prev h x" by (simp only: pr if_False)
  next
    fix x assume "x \<in> set (a # A)" then show "k x \<noteq> None" using live by blast
  qed
  have kR: "chain k R"
  proof (rule chain_frame[OF chR])
    fix x assume x: "x \<in> set (butlast R)"
    have "x \<in> set R" using x by (rule in_set_butlastD)
    moreover have "x \<noteq> ol" unfolding names using dR x by (rule distinct_butlast_last)
    ultimately have "x \<noteq> en" "x \<noteq> pv" "x \<noteq> ol" using m BR AR by blast+
    then show "get_next k x = get_next h x" by (simp only: nx if_False)
  next
    fix x assume x: "x \<in> set (tl R)"
    have "x \<in> set R" using x by (rule in_set_tl)
    moreover have "x \<noteq> b1" unfolding names using dR x by (rule distinct_tl_hd)
    ultimately have "x \<noteq> a" "x \<noteq> st" "x \<noteq> b1" using m BR AR by blast+
    then show "get_prev k x = get_prev h x" by (simp only: pr if_False)
  next
    fix x assume "x \<in> set R" then show "k x \<noteq> None" using live by blast
  qed
  have ne1: "pv \<noteq> en" "ol \<noteq> en" "ol \<noteq> pv" "st \<noteq> a" "b1 \<noteq> a" "b1 \<noteq> st"
    using m AB AR BR by blast+
  have l1: "link k en a" by (simp add: link_def nx pr)
  have l2: "link k pv st" using ne1 by (simp add: link_def nx pr)
  have l3: "link k ol b1" using ne1 by (simp add: link_def nx pr)
  show "cyc k (B @ a # A)"
    using kB kA l1 l2 B by (simp add: cyc_alt chain_append names del: last.simps)
  show "cyc k R"
    using kR l3 R by (simp add: cyc_alt names)
qed


lemma ring_splice:
  assumes rs: "ring h s (pa @ ra)" and ro: "ring h os (blk @ qb)" and blk: "blk \<noteq> []"
    and dj: "set (s # map fst (pa @ ra)) \<inter> set (os # map fst (blk @ qb)) = {}"
    and names: "a = hd (map fst ra @ [s])" "pv = last (s # map fst pa)" "st = fst (hd blk)"
      "en = fst (last blk)" "b1 = hd (map fst qb @ [os])"
    and nx: "\<And>x. get_next k x =
               (if x = en then Some a else if x = pv then Some st
                else if x = os then Some b1 else get_next h x)"
    and pr: "\<And>x. get_prev k x =
               (if x = a then Some en else if x = st then Some pv
                else if x = b1 then Some os else get_prev h x)"
    and lv: "\<And>x. (k x = None) = (h x = None)"
    and gv: "\<And>x. get_val k x = get_val h x"
  shows "ring k s (pa @ blk @ ra)" "ring k os qb"
proof -
  let ?A = "tl (map fst ra @ s # map fst pa)" and ?B = "map fst blk" and ?R = "map fst qb @ [os]"
  have aA: "a # ?A = map fst ra @ s # map fst pa" by (cases ra) (auto simp: names)
  have cA: "cyc h (a # ?A)" unfolding aA using ring_rot[OF rs] .
  have "cyc h ([os] @ (?B @ map fst qb))" using ro by (simp add: ring_def)
  then have "cyc h ((?B @ map fst qb) @ [os])" by (subst cyc_rotate)
  then have cB: "cyc h (?B @ ?R)" by simp
  have ds: "distinct (s # map fst (pa @ ra))" and dq: "distinct (os # map fst (blk @ qb))"
    using rs ro by (simp_all add: ring_def)
  have "distinct ((a # ?A) @ ?B @ ?R)"
    unfolding aA using ds dq dj by auto
  then have d: "distinct (a # ?A @ ?B @ ?R)" by (simp only: append_Cons)
  have B: "?B \<noteq> []" and R: "?R \<noteq> []" using blk by simp_all
  have n1: "en = last ?B" using blk by (simp add: names last_map)
  have n2: "st = hd ?B" using blk by (simp add: names hd_map)
  have n3: "pv = last (a # ?A)" unfolding aA by (simp add: names)
  have n4: "os = last ?R" by simp
  have n5: "b1 = hd ?R" by (simp add: names)
  note S = cyc_splice[OF cA cB B R d n1 n2 n3 n4 n5 nx pr lv]
  have "cyc k ((?B @ map fst ra) @ (s # map fst pa))" using S(1) unfolding aA by simp
  then have "cyc k ((s # map fst pa) @ (?B @ map fst ra))" by (subst cyc_rotate)
  then have c1: "cyc k (s # map fst (pa @ blk @ ra))" by simp
  have "cyc k ([os] @ map fst qb)" using S(2) by (subst cyc_rotate)
  then have c2: "cyc k (os # map fst qb)" by simp
  have v1: "list_all (\<lambda>x. get_val k (fst x) = Some (snd x)) (pa @ blk @ ra)"
    using rs ro by (simp add: ring_def gv)
  have v2: "list_all (\<lambda>x. get_val k (fst x) = Some (snd x)) qb"
    using ro by (simp add: ring_def gv)
  have d1: "distinct (s # map fst (pa @ blk @ ra))" using ds dq dj by auto
  have d2: "distinct (os # map fst qb)" using dq by auto
  show "ring k s (pa @ blk @ ra)"
    using rs ro c1 v1 d1 by (simp add: ring_def gv)
  show "ring k os qb"
    using ro c2 v2 d2 by (simp add: ring_def gv)
qed

lemma splice_block_calc:
  assumes "get_prev h b1 = Some en" "get_next h en = Some b1" "get_prev h b = Some os"
    "get_prev h a = Some pv" "h os \<noteq> None" "h pv \<noteq> None" "a \<noteq> b1"
  shows "merge_splice_block h os a b b1
         = Some (upd_prev (upd_next (upd_prev (upd_next (upd_prev (upd_next h os b1) b1 os)
                  pv b) b pv) en a) a en)"
proof -
  have e: "(if b1 = os then get_prev h os else get_prev h b1) = Some en"
    using assms(1) by auto
  have live: "h b1 \<noteq> None" "h en \<noteq> None" "h b \<noteq> None" "h a \<noteq> None"
    using assms(1-4) by (auto dest: get_prev_live get_next_live)
  show ?thesis
    unfolding merge_splice_block_def e using assms live
    by (simp add: set_next_upd set_prev_upd)
qed

lemma splice_end_calc:
  assumes "get_prev h os = Some en" "get_next h en = Some os" "get_prev h b = Some os"
    "get_prev h s = Some pv" "h pv \<noteq> None" "s \<noteq> os"
  shows "merge_splice_end h s os b
         = Some (upd_prev (upd_next (upd_prev (upd_next (upd_prev (upd_next (upd_prev
                  (upd_next h os os) os os) os os) os os) pv b) b pv) en s) s en)"
proof -
  have live: "h os \<noteq> None" "h en \<noteq> None" "h b \<noteq> None" "h s \<noteq> None"
    using assms(1-4) by (auto dest: get_prev_live get_next_live)
  show ?thesis
    unfolding merge_splice_end_def using assms live by (simp add: set_next_upd set_prev_upd)
qed

lemma merge_advance_correct:
  assumes "ring h s (pa @ ra)" "get_val h b = Some bv"
  shows "merge_advance lt h s b (hd (map fst ra @ [s]))
           = Some (hd (map fst (dropWhile (\<lambda>x. \<not> lt bv (snd x)) ra) @ [s]))"
  using assms
proof (induction ra arbitrary: pa)
  case Nil
  then show ?case by (subst merge_advance.simps) simp
next
  case (Cons x ra)
  obtain c cv where x: "x = (c, cv)" by (cases x)
  have r: "ring h s (pa @ (c, cv) # ra)" using Cons.prems(1) x by simp
  have r': "ring h s ((pa @ [x]) @ ra)" using Cons.prems(1) by simp
  have cs: "c \<noteq> s" using r by (auto simp: ring_def)
  note N = ring_node[OF r]
  show ?case
    using cs N(1,3) Cons.prems(2) Cons.IH[OF r' Cons.prems(2)]
    by (subst merge_advance.simps) (simp add: x)
qed

lemma merge_block_correct:
  assumes "ring h os (qa @ qb)" "get_val h a = Some av"
  shows "merge_block lt h os a (hd (map fst qb @ [os])) cnt
           = Some (hd (map fst (dropWhile (\<lambda>y. lt (snd y) av) qb) @ [os]),
                   cnt + length (takeWhile (\<lambda>y. lt (snd y) av) qb))"
  using assms
proof (induction qb arbitrary: qa cnt)
  case Nil
  then show ?case by (subst merge_block.simps) simp
next
  case (Cons y qb)
  obtain b bv where y: "y = (b, bv)" by (cases y)
  have r: "ring h os (qa @ (b, bv) # qb)" using Cons.prems(1) y by simp
  have r': "ring h os ((qa @ [y]) @ qb)" using Cons.prems(1) by simp
  have bs: "b \<noteq> os" using r by (auto simp: ring_def)
  note N = ring_node[OF r]
  show ?case
    using bs N(1,3) Cons.prems(2) Cons.IH[OF r' Cons.prems(2), of "cnt + 1"]
    by (subst merge_block.simps) (simp add: y)
qed

lemma ring_next_closed:
  assumes "ring h s ps" "x \<in> set (s # map fst ps)"
  shows "\<exists>y \<in> set (s # map fst ps). get_next h x = Some y"
proof (cases "x = s")
  case True
  have "hd (map fst ps @ [s]) \<in> set (s # map fst ps)" by (cases ps) auto
  then show ?thesis using ring_sentinel(1)[OF assms(1)] True by blast
next
  case False
  then have "x \<in> fst ` set ps" using assms(2) by simp
  then obtain p where p: "p \<in> set ps" "fst p = x" by auto
  obtain p1 p2 where "ps = p1 @ p # p2" using split_list[OF p(1)] by blast
  then have ps: "ps = p1 @ (x, snd p) # p2" using p(2) by (cases p) simp
  define v where "v = snd p"
  note ps = ps[folded v_def]
  have r: "ring h s (p1 @ (x, v) # p2)" using assms(1) ps by simp
  have "hd (map fst p2 @ [s]) \<in> set (s # map fst ps)" unfolding ps by (cases p2) auto
  then show ?thesis using ring_node(1)[OF r] by blast
qed

lemma skip_next_ring:
  assumes "ring h s ps" "x \<in> set (s # map fst ps)"
  shows "\<exists>y \<in> set (s # map fst ps). skip_next h x k = Some y"
  using assms(2)
proof (induction k arbitrary: x)
  case 0
  then show ?case by simp
next
  case (Suc k)
  obtain y where y: "y \<in> set (s # map fst ps)" "get_next h x = Some y"
    using ring_next_closed[OF assms(1) Suc.prems] by blast
  show ?case using Suc.IH[OF y(1)] y(2) by simp
qed

lemma merge_lists_left:
  assumes "\<forall>x \<in> set us. \<not> lt (snd y) (snd x)"
  shows "merge_lists lt (us @ vs) (y # ys) = us @ merge_lists lt vs (y # ys)"
  using assms by (induction us) auto

lemma merge_lists_right:
  assumes "\<forall>y \<in> set us. lt (snd y) (snd x)"
  shows "merge_lists lt (x # xs) (us @ vs) = us @ merge_lists lt (x # xs) vs"
  using assms by (induction us) auto

lemma merge_lists_Nil2 [simp]: "merge_lists lt xs [] = xs"
  by (cases xs) auto


lemma ring_block:
  assumes "ring h os (blk @ qb2)" "blk \<noteq> []"
  shows "get_next h (fst (last blk)) = Some (hd (map fst qb2 @ [os]))"
    "get_prev h (hd (map fst qb2 @ [os])) = Some (fst (last blk))"
    "get_prev h (fst (hd blk)) = Some os"
    "fst (last blk) \<noteq> os"
proof -
  have b1: "blk = butlast blk @ [(fst (last blk), snd (last blk))]" using assms(2) by simp
  have r1: "ring h os (butlast blk @ (fst (last blk), snd (last blk)) # qb2)"
    using assms(1) by (subst (asm) b1) simp
  show "get_next h (fst (last blk)) = Some (hd (map fst qb2 @ [os]))"
    using ring_node(1)[OF r1] .
  show "fst (last blk) \<noteq> os" using ring_erase(7)[OF r1] .
  have lm: "last (os # map fst blk) = fst (last blk)" using assms(2) by (simp add: last_map)
  show "get_prev h (hd (map fst qb2 @ [os])) = Some (fst (last blk))"
  proof (cases qb2)
    case Nil
    then show ?thesis using ring_sentinel(2)[OF assms(1)] lm by simp
  next
    case (Cons d qb2')
    have r2: "ring h os (blk @ (fst d, snd d) # qb2')" using assms(1) Cons by simp
    show ?thesis using ring_node(2)[OF r2] lm Cons by simp
  qed
  have b2: "blk = (fst (hd blk), snd (hd blk)) # tl blk" using assms(2) by simp
  have r3: "ring h os ([] @ (fst (hd blk), snd (hd blk)) # (tl blk @ qb2))"
    using assms(1) by (subst (asm) b2) simp
  show "get_prev h (fst (hd blk)) = Some os" using ring_node(2)[OF r3] by simp
qed

lemma ring_pos_prev:
  assumes "ring h s (pa @ ra)"
  shows "get_prev h (hd (map fst ra @ [s])) = Some (last (s # map fst pa))"
    "h (last (s # map fst pa)) \<noteq> None"
proof -
  show "get_prev h (hd (map fst ra @ [s])) = Some (last (s # map fst pa))"
  proof (cases ra)
    case Nil
    then show ?thesis using ring_sentinel(2)[OF assms] by simp
  next
    case (Cons c ra')
    have r: "ring h s (pa @ (fst c, snd c) # ra')" using assms Cons by simp
    show ?thesis using ring_node(2)[OF r] Cons by simp
  qed
  have "last (s # map fst pa) \<in> set (s # map fst pa)" by (rule last_in_set) simp
  moreover have "set (s # map fst pa) \<subseteq> set (s # map fst (pa @ ra))" by auto
  ultimately have "last (s # map fst pa) \<in> set (s # map fst (pa @ ra))" by blast
  then show "h (last (s # map fst pa)) \<noteq> None" by (rule ring_live[OF assms])
qed

lemma splice_obs:
  assumes "h os \<noteq> None" "h pv \<noteq> None" "h en \<noteq> None" "h b \<noteq> None" "h a \<noteq> None" "h b1 \<noteq> None"
  defines "k \<equiv> upd_prev (upd_next (upd_prev (upd_next (upd_prev (upd_next h os b1) b1 os)
                  pv b) b pv) en a) a en"
  shows "get_next k x = (if x = en then Some a else if x = pv then Some b
                          else if x = os then Some b1 else get_next h x)"
    "get_prev k x = (if x = a then Some en else if x = b then Some pv
                          else if x = b1 then Some os else get_prev h x)"
    "(k x = None) = (h x = None)" "get_val k x = get_val h x"
  using assms(1-6) unfolding k_def by simp_all

lemma splice_end_obs:
  assumes "h os \<noteq> None" "h pv \<noteq> None" "h en \<noteq> None" "h b \<noteq> None" "h s \<noteq> None"
  defines "k \<equiv> upd_prev (upd_next (upd_prev (upd_next (upd_prev (upd_next (upd_prev
                  (upd_next h os os) os os) os os) os os) pv b) b pv) en s) s en"
  shows "get_next k x = (if x = en then Some s else if x = pv then Some b
                          else if x = os then Some os else get_next h x)"
    "get_prev k x = (if x = s then Some en else if x = b then Some pv
                          else if x = os then Some os else get_prev h x)"
    "(k x = None) = (h x = None)" "get_val k x = get_val h x"
  using assms(1-5) unfolding k_def by simp_all


lemma merge_end_step:
  assumes rs: "ring h s ps" and ro: "ring h os qb" and qb: "qb \<noteq> []"
    and dj: "set (s # map fst ps) \<inter> set (os # map fst qb) = {}"
  shows "\<exists>k. merge_splice_end h s os (fst (hd qb)) = Some k \<and>
           ring k s (ps @ qb) \<and> ring k os [] \<and>
           (\<forall>x. get_val k x = get_val h x) \<and> (\<forall>x. (k x = None) = (h x = None))"
proof -
  define en where "en = fst (last qb)"
  define b where "b = fst (hd qb)"
  define pv where "pv = last (s # map fst ps)"
  have ro': "ring h os (qb @ [])" using ro by simp
  have rs': "ring h s (ps @ [])" using rs by simp
  note B = ring_block[OF ro' qb, folded en_def b_def]
  note P = ring_pos_prev[OF rs', folded pv_def]
  have f1: "get_prev h os = Some en" "get_next h en = Some os" "get_prev h b = Some os"
    "get_prev h s = Some pv"
    using B(1,2,3) P(1) by simp_all
  have sos: "s \<noteq> os" using dj by auto
  define k where "k = upd_prev (upd_next (upd_prev (upd_next (upd_prev (upd_next (upd_prev
                  (upd_next h os os) os os) os os) os os) pv b) b pv) en s) s en"
  have live: "h os \<noteq> None" "h pv \<noteq> None" "h en \<noteq> None" "h b \<noteq> None" "h s \<noteq> None"
    using f1 P(2) by (auto dest: get_prev_live get_next_live)
  note O = splice_end_obs[OF live, folded k_def]
  have names: "s = hd (map fst [] @ [s])" "pv = last (s # map fst ps)" "b = fst (hd qb)"
    "en = fst (last qb)" "os = hd (map fst [] @ [os])"
    by (simp_all add: pv_def b_def en_def)
  have dj': "set (s # map fst (ps @ [])) \<inter> set (os # map fst (qb @ [])) = {}"
    using dj by simp
  have R: "ring k s (ps @ qb @ [])" "ring k os []"
    using ring_splice[OF rs' ro' qb dj' names O] by blast+
  have calc: "merge_splice_end h s os b = Some k"
    unfolding k_def by (rule splice_end_calc[OF f1 P(2) sos])
  have R1: "ring k s (ps @ qb)" using R(1) by simp
  show ?thesis
    by (intro exI[of _ k] conjI allI) (rule calc[unfolded b_def] R1 R(2) O(3) O(4))+
qed

lemma merge_block_step:
  assumes rs: "ring h s (pa @ (c, cv) # ra)" and ro: "ring h os (blk @ qb2)"
    and blk: "blk \<noteq> []"
    and dj: "set (s # map fst (pa @ (c, cv) # ra)) \<inter> set (os # map fst (blk @ qb2)) = {}"
  shows "\<exists>k. merge_splice_block h os c (fst (hd blk)) (hd (map fst qb2 @ [os])) = Some k \<and>
           ring k s (pa @ blk @ (c, cv) # ra) \<and> ring k os qb2 \<and>
           (\<forall>x. get_val k x = get_val h x) \<and> (\<forall>x. (k x = None) = (h x = None))"
proof -
  define en where "en = fst (last blk)"
  define b where "b = fst (hd blk)"
  define b1 where "b1 = hd (map fst qb2 @ [os])"
  define pv where "pv = last (s # map fst pa)"
  note B = ring_block[OF ro blk, folded en_def b_def b1_def]
  note P = ring_pos_prev[OF rs, folded pv_def]
  have hos: "h os \<noteq> None" using ring_live[OF ro, of os] by simp
  have f1: "get_prev h b1 = Some en" "get_next h en = Some b1" "get_prev h b = Some os"
    "get_prev h c = Some pv"
    using B(1,2,3) P(1) by simp_all
  have b1in: "b1 \<in> set (os # map fst (blk @ qb2))" unfolding b1_def by (cases qb2) auto
  have cin: "c \<in> set (s # map fst (pa @ (c, cv) # ra))" by simp
  have cb1: "c \<noteq> b1" using dj b1in cin by blast
  define k where "k = upd_prev (upd_next (upd_prev (upd_next (upd_prev (upd_next h os b1) b1 os)
                  pv b) b pv) en c) c en"
  have live: "h os \<noteq> None" "h pv \<noteq> None" "h en \<noteq> None" "h b \<noteq> None" "h c \<noteq> None"
    "h b1 \<noteq> None"
    using f1 P(2) hos by (auto dest: get_prev_live get_next_live)
  note O = splice_obs[OF live, folded k_def]
  have names: "c = hd (map fst ((c, cv) # ra) @ [s])" "pv = last (s # map fst pa)"
    "b = fst (hd blk)" "en = fst (last blk)" "b1 = hd (map fst qb2 @ [os])"
    by (simp_all add: pv_def b_def en_def b1_def)
  have R: "ring k s (pa @ blk @ (c, cv) # ra)" "ring k os qb2"
    using ring_splice[OF rs ro blk dj names O] by blast+
  have calc: "merge_splice_block h os c b b1 = Some k"
    unfolding k_def by (rule splice_block_calc[OF f1 hos P(2) cb1])
  show ?thesis
    by (intro exI[of _ k] conjI allI) (rule calc[unfolded b_def b1_def] R O(3) O(4))+
qed


lemma merge_loop_correct:
  assumes "ring h s (pa @ ra)" "ring h os qb"
    "set (s # map fst (pa @ ra)) \<inter> set (os # map fst qb) = {}"
    "n = length (pa @ ra)" "on = length qb"
  shows "\<exists>h'. merge_loop lt h s os n on (hd (map fst ra @ [s])) (hd (map fst qb @ [os]))
             = Some (h', length (pa @ merge_lists lt ra qb), 0) \<and>
           ring h' s (pa @ merge_lists lt ra qb) \<and> ring h' os [] \<and>
           (\<forall>x. get_val h' x = get_val h x) \<and> (\<forall>x. (h' x = None) = (h x = None))"
  using assms
proof (induction "length qb" arbitrary: h pa ra qb n on rule: less_induct)
  case less
  show ?case
  proof (cases qb)
    case Nil
    show ?thesis
      using less.prems Nil by (subst merge_loop.simps) simp
  next
    case (Cons y qb')
    obtain b bv where y: "y = (b, bv)" by (cases y)
    have qb: "qb = (b, bv) # qb'" using Cons y by simp
    let ?P = "\<lambda>x. \<not> lt bv (snd x)"
    let ?ra1 = "takeWhile ?P ra" and ?ra2 = "dropWhile ?P ra"
    have ro0: "ring h os ([] @ (b, bv) # qb')" using less.prems(2) qb by simp
    have bs: "b \<noteq> os" using ring_erase(7)[OF ro0] .
    have bvv: "get_val h b = Some bv" using ring_node(3)[OF ro0] .
    have hdq: "hd (map fst qb @ [os]) = b" by (simp add: qb)
    have qne: "qb \<noteq> []" by (simp add: qb)
    have adv: "merge_advance lt h s b (hd (map fst ra @ [s])) = Some (hd (map fst ?ra2 @ [s]))"
      using merge_advance_correct[OF less.prems(1) bvv] .
    have ra1: "\<forall>x \<in> set ?ra1. \<not> lt (snd (b, bv)) (snd x)"
      using set_takeWhileD[of _ ?P ra] by auto
    show ?thesis
    proof (cases "?ra2")
      case Nil
      have a1: "hd (map fst ?ra2 @ [s]) = s" unfolding Nil by simp
      obtain k where K: "merge_splice_end h s os (fst (hd qb)) = Some k"
        "ring k s ((pa @ ra) @ qb)" "ring k os []"
        "\<forall>x. get_val k x = get_val h x" "\<forall>x. (k x = None) = (h x = None)"
        using merge_end_step[OF less.prems(1,2) qne less.prems(3)]
        by (elim exE conjE) (rule that; assumption)
      have K1: "merge_splice_end h s os b = Some k" using K(1) by (simp add: qb)
      have "ra = ?ra1 @ []" using Nil by (metis takeWhile_dropWhile_id)
      then have "merge_lists lt ra qb = ?ra1 @ merge_lists lt [] ((b, bv) # qb')"
        using merge_lists_left[where lt = lt and y = "(b, bv)" and us = "?ra1" and vs = "[]"
            and ys = qb', OF ra1] unfolding qb by simp
      then have ml: "merge_lists lt ra qb = ra @ qb"
        using \<open>ra = ?ra1 @ []\<close> by (simp add: qb)
      have ml2: "length (pa @ merge_lists lt ra qb) = n + on"
        unfolding ml using less.prems(4,5) by simp
      have "merge_loop lt h s os n on (hd (map fst ra @ [s])) (hd (map fst qb @ [os]))
              = Some (k, n + on, 0)"
        unfolding hdq using bs adv a1 K1 by (subst merge_loop.simps) simp
      then have H1: "merge_loop lt h s os n on (hd (map fst ra @ [s])) (hd (map fst qb @ [os]))
              = Some (k, length (pa @ merge_lists lt ra qb), 0)"
        unfolding ml2 .
      have rr: "ring k s (pa @ merge_lists lt ra qb)" unfolding ml using K(2) by simp
      show ?thesis
        by (intro exI[of _ k] conjI) (rule H1 rr K(3) K(4) K(5))+
    next
      case (Cons z ra2')
      obtain c cv where z: "z = (c, cv)" by (cases z)
      have ra2: "?ra2 = (c, cv) # ra2'" using Cons z by simp
      have ra: "ra = ?ra1 @ (c, cv) # ra2'" using ra2 by (metis takeWhile_dropWhile_id)
      have "\<not> ?P (hd ?ra2)" by (rule hd_dropWhile) (simp add: ra2)
      then have ltb: "lt bv cv" by (simp add: ra2)
      have a1: "hd (map fst ?ra2 @ [s]) = c" by (simp add: ra2)
      have rs1: "ring h s ((pa @ ?ra1) @ (c, cv) # ra2')"
        using less.prems(1) by (subst (asm) ra) simp
      have cs: "c \<noteq> s" using ring_erase(7)[OF rs1] .
      have cvv: "get_val h c = Some cv" using ring_node(3)[OF rs1] .
      let ?Q = "\<lambda>y. lt (snd y) cv"
      let ?blk = "takeWhile ?Q qb" and ?qb2 = "dropWhile ?Q qb"
      have qsplit: "qb = ?blk @ ?qb2" by simp
      have blk_hd: "?blk = (b, bv) # takeWhile ?Q qb'" using ltb by (simp add: qb)
      have blk: "?blk \<noteq> []" using blk_hd by simp
      have hdblk: "fst (hd ?blk) = b" using blk_hd by simp
      have ro1: "ring h os ([] @ qb)" using less.prems(2) by simp
      have ro2: "ring h os (?blk @ ?qb2)" using less.prems(2) by simp
      have mb: "merge_block lt h os c b 0
                 = Some (hd (map fst ?qb2 @ [os]), length ?blk)"
        using merge_block_correct[OF ro1 cvv, of lt 0] unfolding hdq by simp
      have bin: "b \<in> set (os # map fst qb)" by (simp add: qb)
      obtain e0 where sk: "skip_next h b (length ?blk - 1) = Some e0"
        using skip_next_ring[OF less.prems(2) bin, of "length ?blk - 1"] by blast
      have seteq: "set (s # map fst ((pa @ ?ra1) @ (c, cv) # ra2')) = set (s # map fst (pa @ ra))"
        by (subst (2) ra) simp
      have dj1: "set (s # map fst ((pa @ ?ra1) @ (c, cv) # ra2'))
                   \<inter> set (os # map fst (?blk @ ?qb2)) = {}"
        unfolding seteq using less.prems(3) by simp
      obtain k where K:
        "merge_splice_block h os c (fst (hd ?blk)) (hd (map fst ?qb2 @ [os])) = Some k"
        "ring k s ((pa @ ?ra1) @ ?blk @ (c, cv) # ra2')" "ring k os ?qb2"
        "\<forall>x. get_val k x = get_val h x" "\<forall>x. (k x = None) = (h x = None)"
        using merge_block_step[OF rs1 ro2 blk dj1]
        by (elim exE conjE) (rule that; assumption)
      have K1: "merge_splice_block h os c b (hd (map fst ?qb2 @ [os])) = Some k"
        using K(1) unfolding hdblk .
      have len: "length qb = length ?blk + length ?qb2"
        by (metis length_append takeWhile_dropWhile_id)
      have lt2: "length ?qb2 < length qb" using len blk by simp
      have rk: "ring k s ((pa @ ?ra1 @ ?blk) @ (c, cv) # ra2')" using K(2) by simp
      have dq0: "distinct (os # map fst qb)" using less.prems(2) by (simp add: ring_def)
      have mq: "map fst qb = map fst ?blk @ map fst ?qb2"
        by (metis map_append takeWhile_dropWhile_id)
      have dq: "distinct (os # map fst ?blk @ map fst ?qb2)" using dq0 unfolding mq .
      have sub1: "set (s # map fst ((pa @ ?ra1 @ ?blk) @ (c, cv) # ra2'))
                   = set (s # map fst (pa @ ra)) \<union> set (map fst ?blk)"
        using seteq by auto
      have sub2: "set (os # map fst qb) = set (os # map fst ?qb2) \<union> set (map fst ?blk)"
        by (subst qsplit) (simp del: takeWhile_dropWhile_id add: Un_commute insert_commute)
      have dj2: "set (s # map fst ((pa @ ?ra1 @ ?blk) @ (c, cv) # ra2'))
                   \<inter> set (os # map fst ?qb2) = {}"
      proof -
        have "set (s # map fst (pa @ ra)) \<inter> set (os # map fst ?qb2) = {}"
          using less.prems(3) sub2 by blast
        moreover have "set (map fst ?blk) \<inter> set (os # map fst ?qb2) = {}"
          using dq by auto
        ultimately show ?thesis unfolding sub1 by blast
      qed
      have n2: "n + length ?blk = length ((pa @ ?ra1 @ ?blk) @ (c, cv) # ra2')"
        using less.prems(4) by (subst (asm) ra) simp
      have on2: "on - length ?blk = length ?qb2" using less.prems(5) len by simp
      obtain h' where H:
        "merge_loop lt k s os (n + length ?blk) (on - length ?blk)
             (hd (map fst ((c, cv) # ra2') @ [s])) (hd (map fst ?qb2 @ [os]))
           = Some (h', length ((pa @ ?ra1 @ ?blk) @ merge_lists lt ((c, cv) # ra2') ?qb2), 0)"
        "ring h' s ((pa @ ?ra1 @ ?blk) @ merge_lists lt ((c, cv) # ra2') ?qb2)"
        "ring h' os []"
        "\<forall>x. get_val h' x = get_val k x" "\<forall>x. (h' x = None) = (k x = None)"
        using less.hyps[OF lt2 rk K(3) dj2 n2 on2]
        by (elim exE conjE) (rule that; assumption)
      have blkQ: "\<forall>y \<in> set ?blk. lt (snd y) (snd (c, cv))"
        using set_takeWhileD[of _ ?Q qb] by auto
      have m1: "merge_lists lt ra qb = ?ra1 @ merge_lists lt ((c, cv) # ra2') qb"
        using merge_lists_left[where lt = lt and y = "(b, bv)" and us = "?ra1"
            and vs = "(c, cv) # ra2'" and ys = qb', OF ra1] unfolding qb[symmetric]
        by (subst ra) simp
      have m2: "merge_lists lt ((c, cv) # ra2') qb
                  = ?blk @ merge_lists lt ((c, cv) # ra2') ?qb2"
        using merge_lists_right[where lt = lt and x = "(c, cv)" and us = "?blk" and xs = ra2'
            and vs = "?qb2", OF blkQ] by simp
      have ml: "pa @ merge_lists lt ra qb
                  = (pa @ ?ra1 @ ?blk) @ merge_lists lt ((c, cv) # ra2') ?qb2"
        unfolding m1 m2 by simp
      have step: "merge_loop lt h s os n on (hd (map fst ra @ [s])) (hd (map fst qb @ [os]))
              = merge_loop lt k s os (n + length ?blk) (on - length ?blk) c
                  (hd (map fst ?qb2 @ [os]))"
        unfolding hdq using bs adv a1 cs mb sk K1 by (subst merge_loop.simps) simp
      have H1: "merge_loop lt h s os n on (hd (map fst ra @ [s])) (hd (map fst qb @ [os]))
           = Some (h', length (pa @ merge_lists lt ra qb), 0)"
        unfolding step ml using H(1) by simp
      have gv: "\<forall>x. get_val h' x = get_val h x" using H(4) K(4) by simp
      have lv: "\<forall>x. (h' x = None) = (h x = None)" using H(5) K(5) by simp
      have rr: "ring h' s (pa @ merge_lists lt ra qb)" unfolding ml by (rule H(2))
      show ?thesis
        by (intro exI[of _ h'] conjI) (rule H1 rr H(3) gv lv)+
    qed
  qed
qed


lemma merge_into_empty:
  assumes rs: "ring h s []" and ro: "ring h os qb" and qb: "qb \<noteq> []" and sos: "s \<noteq> os"
  shows "\<exists>k. merge_take_all h s os = Some k \<and> ring k s qb \<and> ring k os [] \<and>
           (\<forall>x. get_val k x = get_val h x) \<and> (\<forall>x. (k x = None) = (h x = None))"
proof -
  define en where "en = fst (last qb)"
  define b where "b = fst (hd qb)"
  have ro': "ring h os (qb @ [])" using ro by simp
  have rs': "ring h s ([] @ [])" using rs by simp
  note B = ring_block[OF ro' qb, folded en_def b_def]
  have hdq: "hd (map fst qb @ [os]) = b" using qb by (cases qb) (auto simp: b_def)
  have f1: "get_prev h os = Some en" "get_next h os = Some b"
    using B(2) ring_sentinel(1)[OF ro] hdq by simp_all
  have lvs: "h s \<noteq> None" using ring_live[OF rs, of s] by simp
  have bin: "b \<in> set (os # map fst qb)" "en \<in> set (os # map fst qb)"
    using qb by (simp_all add: b_def en_def)
  have live: "h os \<noteq> None" "h en \<noteq> None" "h b \<noteq> None"
    using ring_live[OF ro] bin by simp_all
  have dq: "distinct (os # map fst qb)" using ro by (simp add: ring_def)
  have enb: "en \<in> set (map fst qb)" "b \<in> set (map fst qb)"
    using qb by (simp_all add: b_def en_def last_map hd_map)
  have sin: "s \<notin> set (os # map fst qb)"
  proof
    assume "s \<in> set (os # map fst qb)"
    then have "s \<in> fst ` set qb" using sos by simp
    then obtain p where p: "p \<in> set qb" "fst p = s" by auto
    have "get_val h (fst p) = Some (snd p)" using ro p(1) by (simp add: ring_def list_all_iff)
    moreover have "get_val h s = None" using rs by (simp add: ring_def)
    ultimately show False using p(2) by simp
  qed
  have ne: "en \<noteq> os" "b \<noteq> os" "s \<noteq> en" "s \<noteq> b"
    using dq enb sin by auto
  define k where "k = upd_next (upd_prev (upd_next (upd_prev (upd_prev (upd_next h s b) s en)
                  b s) en s) os os) os os"
  have calc: "merge_take_all h s os = Some k"
    unfolding k_def merge_take_all_def using f1 live lvs ne sos
    by (simp add: set_next_upd set_prev_upd)
  have nx: "\<And>x. get_next k x = (if x = en then Some s else if x = s then Some b
                          else if x = os then Some os else get_next h x)"
    unfolding k_def using live lvs ne sos by simp
  have pr: "\<And>x. get_prev k x = (if x = s then Some en else if x = b then Some s
                          else if x = os then Some os else get_prev h x)"
    unfolding k_def using live lvs ne sos by simp
  have lv: "\<And>x. (k x = None) = (h x = None)" unfolding k_def by simp
  have gv: "\<And>x. get_val k x = get_val h x" unfolding k_def by simp
  have names: "s = hd (map fst [] @ [s])" "s = last (s # map fst [])" "b = fst (hd qb)"
    "en = fst (last qb)" "os = hd (map fst [] @ [os])"
    by (simp_all add: b_def en_def)
  have dj: "set (s # map fst ([] @ [])) \<inter> set (os # map fst (qb @ [])) = {}"
    using sin by simp
  have R: "ring k s ([] @ qb @ [])" "ring k os []"
    using ring_splice[OF rs' ro' qb dj names nx pr lv gv] by blast+
  have R1: "ring k s qb" using R(1) by simp
  show ?thesis
    by (intro exI[of _ k] conjI allI) (rule calc R1 R(2) lv gv)+
qed

lemma mset_merge_lists: "mset (merge_lists lt xs ys) = mset xs + mset ys"
  by (induction lt xs ys rule: merge_lists.induct) auto

lemma set_merge_lists: "set (merge_lists lt xs ys) = set xs \<union> set ys"
  by (induction lt xs ys rule: merge_lists.induct) auto

lemma sorted_merge_lists:
  assumes "\<forall>x y. lt (snd x) (snd y) = (f x < f y)"
    and "sorted (map f xs)" "sorted (map f ys)"
  shows "sorted (map f (merge_lists lt xs ys))"
  using assms
proof (induction lt xs ys rule: merge_lists.induct)
  case (3 lt x xs y ys)
  have sx: "sorted (map f xs)" "\<forall>z \<in> set xs. f x \<le> f z"
    using 3(4) by simp_all
  have sy: "sorted (map f ys)" "\<forall>z \<in> set ys. f y \<le> f z"
    using 3(5) by simp_all
  show ?case
  proof (cases "lt (snd y) (snd x)")
    case True
    have yx: "f y < f x" using True 3(3) by blast
    have "sorted (map f (merge_lists lt (x # xs) ys))"
      by (rule 3(1)[OF True 3(3) 3(4) sy(1)])
    moreover have "\<forall>z \<in> set (merge_lists lt (x # xs) ys). f y \<le> f z"
      unfolding set_merge_lists using yx sx(2) sy(2) by fastforce
    ultimately show ?thesis using True by simp
  next
    case False
    have xy: "f x \<le> f y" using False 3(3) by (simp add: not_less)
    have "sorted (map f (merge_lists lt xs (y # ys)))"
      by (rule 3(2)[OF False 3(3) sx(1) 3(5)])
    moreover have "\<forall>z \<in> set (merge_lists lt xs (y # ys)). f x \<le> f z"
      unfolding set_merge_lists using xy sx(2) sy(2) by fastforce
    ultimately show ?thesis using False by simp
  qed
qed simp_all

lemma filter_merge_lists:
  assumes "\<forall>x y. lt (snd x) (snd y) = (f x < f y)" and "sorted (map f xs)"
  shows "filter (\<lambda>z. f z = c) (merge_lists lt xs ys)
           = filter (\<lambda>z. f z = c) xs @ filter (\<lambda>z. f z = c) ys"
  using assms
proof (induction lt xs ys rule: merge_lists.induct)
  case (3 lt x xs y ys)
  have sx: "sorted (map f xs)" "\<forall>z \<in> set xs. f x \<le> f z"
    using 3(4) by simp_all
  show ?case
  proof (cases "lt (snd y) (snd x)")
    case True
    have yx: "f y < f x" using True 3(3) by blast
    have IH: "filter (\<lambda>z. f z = c) (merge_lists lt (x # xs) ys)
           = filter (\<lambda>z. f z = c) (x # xs) @ filter (\<lambda>z. f z = c) ys"
      by (rule 3(1)[OF True 3(3,4)])
    show ?thesis
    proof (cases "f y = c")
      case yc: True
      have "\<forall>z \<in> set (x # xs). f z \<noteq> c"
        using yx yc sx(2) by fastforce
      then have "filter (\<lambda>z. f z = c) (x # xs) = []"
        by (auto simp: filter_empty_conv)
      then show ?thesis using True yc IH by simp
    next
      case False
      then show ?thesis using True IH by simp
    qed
  next
    case False
    show ?thesis using False 3(2)[OF False 3(3) sx(1)] by simp
  qed
qed simp_all

lemma merge_lists_sort_key:
  assumes "\<forall>x y. lt (snd x) (snd y) = (f x < f y)"
    and "sorted (map f xs)" "sorted (map f ys)"
  shows "merge_lists lt xs ys = sort_key f (xs @ ys)"
proof (rule properties_for_sort_key[symmetric])
  show "mset (merge_lists lt xs ys) = mset (xs @ ys)" by (simp add: mset_merge_lists)
  show "sorted (map f (merge_lists lt xs ys))"
    using sorted_merge_lists[OF assms] .
  fix k assume "k \<in> set (merge_lists lt xs ys)"
  have "filter (\<lambda>z. f z = f k) (merge_lists lt xs ys)
        = filter (\<lambda>z. f z = f k) xs @ filter (\<lambda>z. f z = f k) ys"
    by (rule filter_merge_lists[OF assms(1,2)])
  then show "filter (\<lambda>x. f k = f x) (merge_lists lt xs ys) = filter (\<lambda>x. f k = f x) (xs @ ys)"
    by (simp add: eq_commute)
qed


lemma merge_ok:
  assumes it: "list_inv st this ps" and io: "list_inv st other qs" and ne: "this \<noteq> other"
    and L: "lists st this = Some L" and Lo: "lists st other = Some Lo"
    and dj: "set (list_s L # map fst ps) \<inter> set (list_s Lo # map fst qs) = {}"
  shows "\<exists>st'. merge lt st this other = Some st' \<and>
           list_inv st' this (merge_lists lt ps qs) \<and> list_inv st' other [] \<and>
           (\<forall>x. get_val (nodes st') x = get_val (nodes st) x) \<and>
           (\<forall>x. (nodes st' x = None) = (nodes st x = None)) \<and>
           (\<forall>c. c \<noteq> this \<and> c \<noteq> other \<longrightarrow> lists st' c = lists st c) \<and>
           (qs = [] \<longrightarrow> st' = st)"
proof -
  have rs: "ring (nodes st) (list_s L) ps" and n: "list_n L = length ps" and t0: "this \<noteq> nullptr"
    using it L by (auto simp: list_inv_def)
  have ro: "ring (nodes st) (list_s Lo) qs" and on: "list_n Lo = length qs"
    and o0: "other \<noteq> nullptr"
    using io Lo by (auto simp: list_inv_def)
  have sos: "list_s L \<noteq> list_s Lo" using dj by auto
  show ?thesis
  proof (cases "qs = []")
    case True
    have "merge lt st this other = Some st" using L Lo on True by (simp add: merge_def)
    then show ?thesis using it io True by (intro exI[of _ st]) simp
  next
    case qne: False
    show ?thesis
    proof (cases "ps = []")
      case True
      have rs0: "ring (nodes st) (list_s L) []" using rs True by simp
      obtain k where K: "merge_take_all (nodes st) (list_s L) (list_s Lo) = Some k"
        "ring k (list_s L) qs" "ring k (list_s Lo) []"
        "\<forall>x. get_val k x = get_val (nodes st) x" "\<forall>x. (k x = None) = (nodes st x = None)"
        using merge_into_empty[OF rs0 ro qne sos]
        by (elim exE conjE) (rule that; assumption)
      let ?st' = "st\<lparr>nodes := k,
                lists := (lists st)(this \<mapsto> L\<lparr>list_n := list_n Lo\<rparr>, other \<mapsto> Lo\<lparr>list_n := 0\<rparr>)\<rparr>"
      have m: "merge lt st this other = Some ?st'"
        unfolding merge_def using L Lo ne qne on n True K(1) by simp
      have i1: "list_inv ?st' this (merge_lists lt ps qs)"
        using K(2) ne t0 on True by (simp add: list_inv_def)
      have i2: "list_inv ?st' other []" using K(3) o0 by (simp add: list_inv_def)
      show ?thesis
        using m i1 i2 K(4,5) qne by (intro exI[of _ ?st']) simp
    next
      case pne: False
      have rs1: "ring (nodes st) (list_s L) ([] @ ps)" using rs by simp
      have dj1: "set (list_s L # map fst ([] @ ps)) \<inter> set (list_s Lo # map fst qs) = {}"
        using dj by simp
      have n1: "list_n L = length ([] @ ps)" using n by simp
      obtain k where K:
        "merge_loop lt (nodes st) (list_s L) (list_s Lo) (list_n L) (list_n Lo)
            (hd (map fst ps @ [list_s L])) (hd (map fst qs @ [list_s Lo]))
           = Some (k, length ([] @ merge_lists lt ps qs), 0)"
        "ring k (list_s L) ([] @ merge_lists lt ps qs)" "ring k (list_s Lo) []"
        "\<forall>x. get_val k x = get_val (nodes st) x" "\<forall>x. (k x = None) = (nodes st x = None)"
        using merge_loop_correct[where lt = lt, OF rs1 ro dj1 n1 on]
        by (elim exE conjE) (rule that; assumption)
      let ?st' = "st\<lparr>nodes := k,
                lists := (lists st)(this \<mapsto> L\<lparr>list_n := length (merge_lists lt ps qs)\<rparr>,
                                    other \<mapsto> Lo\<lparr>list_n := 0\<rparr>)\<rparr>"
      have m: "merge lt st this other = Some ?st'"
        unfolding merge_def
        using L Lo ne qne pne on n K(1) ring_sentinel(1)[OF rs] ring_sentinel(1)[OF ro]
        by simp
      have i1: "list_inv ?st' this (merge_lists lt ps qs)"
        using K(2) ne t0 by (simp add: list_inv_def)
      have i2: "list_inv ?st' other []" using K(3) o0 by (simp add: list_inv_def)
      show ?thesis
        using m i1 i2 K(4,5) qne by (intro exI[of _ ?st']) simp
    qed
  qed
qed

lemma ex_two_inv:
  "list_inv ex_two 1 [(11, 1), (12, 3), (13, 5)]" "list_inv ex_two 2 [(21, 2), (22, 3), (23, 4)]"
  by (simp_all add: list_inv_def ex_two_def ring_def cyc_def link_def
      get_next_def get_prev_def get_val_def)

text \<open>
  Claim C2. Let two different containers hold sequences that are each sorted by \<open><\<close>
  (a strict weak order, given by a key). Then \<open>merge(other)\<close> returns; this container
  then holds the stable sort of its old sequence followed by that of \<open>other\<close>, which is
  their sorted stable merge: it is sorted, a permutation of the two sequences, and for
  every key the elements of that key are those of this container, in their order, followed
  by those of \<open>other\<close>, in their order. \<open>other\<close> is empty. Every node keeps its value
  and no node is created or destroyed: the nodes of \<open>other\<close> are now nodes of this
  container. Merging an empty \<open>other\<close> leaves the state as it is, and so does merging a
  container with itself.
\<close>

theorem merge_correct:
  assumes "list_inv st this ps" and "list_inv st other qs" and "this \<noteq> other"
    and "lists st this = Some L" and "lists st other = Some Lo"
    and "set (list_s L # map fst ps) \<inter> set (list_s Lo # map fst qs) = {}"
    and "\<forall>x y. lt x y = (key x < key y)"
    and "sorted (map (\<lambda>z. key (snd z)) ps)" and "sorted (map (\<lambda>z. key (snd z)) qs)"
  shows "\<exists>st' rs. merge lt st this other = Some st' \<and>
           list_inv st' this rs \<and> list_inv st' other [] \<and>
           rs = sort_key (\<lambda>z. key (snd z)) (ps @ qs) \<and>
           sorted (map (\<lambda>z. key (snd z)) rs) \<and> mset rs = mset ps + mset qs \<and>
           (\<forall>c. filter (\<lambda>z. key (snd z) = c) rs
                  = filter (\<lambda>z. key (snd z) = c) ps @ filter (\<lambda>z. key (snd z) = c) qs) \<and>
           (\<forall>x. get_val (nodes st') x = get_val (nodes st) x) \<and>
           (\<forall>x. (nodes st' x = None) = (nodes st x = None)) \<and>
           (qs = [] \<longrightarrow> st' = st) \<and>
           merge lt st this this = Some st"
proof -
  let ?f = "\<lambda>z :: addr \<times> 'a. key (snd z)"
  have k: "\<forall>x y :: addr \<times> 'a. lt (snd x) (snd y) = (?f x < ?f y)" using assms(7) by simp
  obtain st' where M: "merge lt st this other = Some st'"
    "list_inv st' this (merge_lists lt ps qs)" "list_inv st' other []"
    "\<forall>x. get_val (nodes st') x = get_val (nodes st) x"
    "\<forall>x. (nodes st' x = None) = (nodes st x = None)"
    "qs = [] \<longrightarrow> st' = st"
    using merge_ok[where lt = lt, OF assms(1-6)]
    by (elim exE conjE) (rule that; assumption)
  have e: "merge_lists lt ps qs = sort_key ?f (ps @ qs)"
    by (rule merge_lists_sort_key[OF k assms(8,9)])
  have s: "sorted (map ?f (merge_lists lt ps qs))"
    by (rule sorted_merge_lists[OF k assms(8,9)])
  have ms: "mset (merge_lists lt ps qs) = mset ps + mset qs" by (rule mset_merge_lists)
  have fl: "\<forall>c. filter (\<lambda>z. ?f z = c) (merge_lists lt ps qs)
                  = filter (\<lambda>z. ?f z = c) ps @ filter (\<lambda>z. ?f z = c) qs"
    using filter_merge_lists[OF k assms(8)] by blast
  have self: "merge lt st this this = Some st" using assms(4) by (simp add: merge_def)
  show ?thesis
    by (intro exI[of _ st'] exI[of _ "merge_lists lt ps qs"] conjI)
       (rule M e s ms fl self)+
qed

theorem merge_correct_witness:
  "list_inv ex_two 1 [(11, 1), (12, 3), (13, 5)] \<and>
   list_inv ex_two 2 [(21, 2), (22, 3), (23, 4)] \<and> (1 :: addr) \<noteq> 2 \<and>
   (\<forall>x y :: nat. (x < y) = (id x < id y)) \<and>
   (\<exists>st'. merge (<) ex_two 1 2 = Some st' \<and>
      list_inv st' 1 [(11, 1), (21, 2), (12, 3), (22, 3), (23, 4), (13, 5)] \<and>
      list_inv st' 2 [])"
proof -
  have L: "lists ex_two 1 = Some \<lparr>list_s = 10, list_n = 3\<rparr>"
    "lists ex_two 2 = Some \<lparr>list_s = 20, list_n = 3\<rparr>"
    by (simp_all add: ex_two_def)
  have ne: "(1 :: addr) \<noteq> 2" by simp
  have dj: "set (list_s \<lparr>list_s = 10, list_n = 3\<rparr> # map fst [(11 :: nat, 1 :: nat), (12, 3), (13, 5)])
              \<inter> set (list_s \<lparr>list_s = 20, list_n = 3\<rparr> # map fst [(21 :: nat, 2 :: nat), (22, 3), (23, 4)]) = {}"
    by simp
  have k: "\<forall>x y :: nat. (x < y) = (id x < id y)" by simp
  have s1: "sorted (map (\<lambda>z. id (snd z)) [(11 :: nat, 1 :: nat), (12, 3), (13, 5)])" by simp
  have s2: "sorted (map (\<lambda>z. id (snd z)) [(21 :: nat, 2 :: nat), (22, 3), (23, 4)])" by simp
  have sk: "sort_key (\<lambda>z. id (snd z))
              ([(11 :: nat, 1 :: nat), (12, 3), (13, 5)] @ [(21, 2), (22, 3), (23, 4)])
            = [(11, 1), (21, 2), (12, 3), (22, 3), (23, 4), (13, 5)]"
    by simp
  from merge_correct[OF ex_two_inv ne L dj k s1 s2]
  obtain st' rs where M: "merge (<) ex_two 1 2 = Some st'" "list_inv st' 1 rs"
    "list_inv st' 2 []"
    "rs = sort_key (\<lambda>z. id (snd z))
              ([(11 :: nat, 1 :: nat), (12, 3), (13, 5)] @ [(21, 2), (22, 3), (23, 4)])"
    by (elim exE conjE) (rule that; assumption)
  have "list_inv st' 1 [(11, 1), (21, 2), (12, 3), (22, 3), (23, 4), (13, 5)]"
    using M(2) unfolding M(4) sk .
  then show ?thesis using ex_two_inv ne k M(1,3) by (intro conjI exI[of _ st']) simp_all
qed

end
